theory Spec2Isabelle
  imports Main
begin

section \<open>JavaScript values\<close>

text \<open>
  The operation payloads, errors and names that flow through the client are untyped
  JavaScript values. Numbers are modelled as integers (no claim below depends on
  fractions or NaN); an object is the association list of its own properties.
\<close>

datatype jsval =
    Undefined
  | Null
  | JBool bool
  | JNum int
  | JStr string
  | JObj "(string \<times> jsval) list"
  | JArr "jsval list"

text \<open>Truthiness, as used by \<^verbatim>\<open>!x\<close>, \<^verbatim>\<open>x || y\<close> and \<^verbatim>\<open>if (x)\<close>.\<close>

fun truthy :: "jsval \<Rightarrow> bool" where
  "truthy Undefined = False"
| "truthy Null = False"
| "truthy (JBool b) = b"
| "truthy (JNum n) = (n \<noteq> 0)"
| "truthy (JStr s) = (s \<noteq> [])"
| "truthy (JObj fs) = True"
| "truthy (JArr vs) = True"

datatype js_error = TypeError | Error string | Thrown jsval

text \<open>
  Property read \<^verbatim>\<open>v.k\<close>: a TypeError on \<^verbatim>\<open>undefined\<close> and \<^verbatim>\<open>null\<close>,
  the stored value or \<^verbatim>\<open>undefined\<close> on an object. The keys read by the code below
  (\<^verbatim>\<open>error\<close>, \<^verbatim>\<open>result\<close>, \<^verbatim>\<open>done\<close>) are not properties of primitives or arrays.
\<close>

fun js_prop :: "jsval \<Rightarrow> string \<Rightarrow> js_error + jsval" where
  "js_prop Undefined k = Inl TypeError"
| "js_prop Null k = Inl TypeError"
| "js_prop (JObj fs) k = Inr (case map_of fs k of None \<Rightarrow> Undefined | Some v \<Rightarrow> v)"
| "js_prop v k = Inr Undefined"

text \<open>\<^verbatim>\<open>a || b\<close>\<close>

definition js_or :: "jsval \<Rightarrow> jsval \<Rightarrow> jsval" where
  "js_or a b = (if truthy a then a else b)"

text \<open>\<^verbatim>\<open>s.indexOf(c)\<close> for a one-character needle: the first position, or -1.\<close>

fun indexOf :: "string \<Rightarrow> char \<Rightarrow> int" where
  "indexOf [] c = -1"
| "indexOf (x # xs) c =
     (if x = c then 0 else (let i = indexOf xs c in if i = -1 then -1 else i + 1))"


section \<open>The Functions client\<close>

record Functions =
  projectId :: jsval
  region :: jsval

text \<open>
  \<^verbatim>\<open>Functions.prototype._formatName\<close> (written \<open>formatName\<close>: a leading or trailing
  underscore is not a legal constant name). The generated path renderer
  \<^verbatim>\<open>this.api.Functions.functionPath\<close> is a parameter; it may throw.
\<close>

definition formatName ::
  "(jsval \<Rightarrow> jsval \<Rightarrow> string \<Rightarrow> js_error + string) \<Rightarrow> Functions \<Rightarrow>
     jsval \<Rightarrow> jsval \<Rightarrow> string \<Rightarrow> js_error + string" where
  "formatName functionPath this pid reg nm =
     (if indexOf nm (CHR ''/'') > -1 then Inr nm
      else functionPath (js_or pid (projectId this)) (js_or reg (region this)) nm)"

text \<open>
  Modelled from the spec: the generated \<^verbatim>\<open>functionPath\<close> renderer is not among the
  sources; this is the format documented at \<^verbatim>\<open>_formatName\<close>,
  \<^verbatim>\<open>projects/{projectId}/locations/{region}/functions/{name}\<close>, for string bindings.
  It only serves as an instance of the parameter of \<open>formatName\<close>.
\<close>

definition functionPath_documented :: "jsval \<Rightarrow> jsval \<Rightarrow> string \<Rightarrow> js_error + string" where
  "functionPath_documented pid reg nm =
     (case (pid, reg) of
        (JStr p, JStr r) \<Rightarrow>
          Inr (''projects/'' @ p @ ''/locations/'' @ r @ ''/functions/'' @ nm)
      | _ \<Rightarrow> Inl (Error ''unbound path parameter''))"


section \<open>The Operation handle and its event emitter\<close>

text \<open>
  The listeners that can be registered on an Operation: the two closures installed by
  \<^verbatim>\<open>listenForEvents_\<close>, the two closures installed by \<^verbatim>\<open>promise\<close> (for the promise
  with the given index), and callbacks of the caller, which are opaque and identified by
  a number.
\<close>

datatype listener =
    NewListenerHook
  | RemoveListenerHook
  | Callback nat
  | PromiseReject nat
  | PromiseResolve nat

text \<open>What the Operation does to its collaborators, in order.\<close>

datatype effect =
    GetOperation jsval
  | SetTimeout nat
  | Emit string "jsval list"
  | Invoke nat "jsval list"
  | Uncaught js_error

datatype promise = Pending | Fulfilled jsval | Rejected jsval

text \<open>
  The fields of the Operation object (\<open>name\<close>, \<open>parent\<close>, \<open>completeListeners\<close>,
  \<open>hasActiveListeners\<close>, and the emitter's registry \<open>events\<close> in registration order)
  together with the part of the runtime that belongs to it: the number of
  \<^verbatim>\<open>getOperation\<close> calls whose callback has not run yet, the delays of the pending
  timers, the promises handed out, and the trace of effects so far.
\<close>

record operation =
  name :: jsval
  parent :: Functions
  completeListeners :: int
  hasActiveListeners :: bool
  events :: "(string \<times> listener) list"
  pendingGets :: nat
  timers :: "nat list"
  promises :: "promise list"
  trace :: "effect list"

definition record_effect :: "effect \<Rightarrow> operation \<Rightarrow> operation" where
  "record_effect e s = s\<lparr>trace := trace s @ [e]\<rparr>"

text \<open>A promise is settled at most once: \<^verbatim>\<open>resolve\<close> and \<^verbatim>\<open>reject\<close> do nothing afterwards.\<close>

definition settle :: "nat \<Rightarrow> promise \<Rightarrow> operation \<Rightarrow> operation" where
  "settle p v s =
     (if p < length (promises s) \<and> promises s ! p = Pending
      then s\<lparr>promises := (promises s)[p := v]\<rparr> else s)"

text \<open>
  \<^verbatim>\<open>Operation.prototype.get\<close>, as called by the poller: one
  \<^verbatim>\<open>getOperation({name: this.name}, callback)\<close> request is issued; its callback runs later.
\<close>

definition get :: "operation \<Rightarrow> operation" where
  "get s = record_effect (GetOperation (JObj [(''name'', name s)]))
             (s\<lparr>pendingGets := Suc (pendingGets s)\<rparr>)"

text \<open>\<^verbatim>\<open>Operation.prototype.startPolling_\<close>, up to the request; the callback is \<open>pollCallback\<close>.\<close>

definition startPolling :: "operation \<Rightarrow> operation" where
  "startPolling s = (if \<not> hasActiveListeners s then s else get s)"

fun arg0 :: "jsval list \<Rightarrow> jsval" where
  "arg0 [] = Undefined"
| "arg0 (a # as) = a"

text \<open>
  Calling one listener with the arguments of an event. The hooks are the two closures of
  \<^verbatim>\<open>listenForEvents_\<close>; they read their first argument, the event name.
\<close>

fun invoke :: "listener \<Rightarrow> jsval list \<Rightarrow> operation \<Rightarrow> operation" where
  "invoke NewListenerHook args s =
     (if arg0 args = JStr ''complete'' then
        (let s1 = s\<lparr>completeListeners := completeListeners s + 1\<rparr> in
         if \<not> hasActiveListeners s1
         then startPolling (s1\<lparr>hasActiveListeners := True\<rparr>)
         else s1)
      else s)"
| "invoke RemoveListenerHook args s =
     (if arg0 args = JStr ''complete'' then
        (let s1 = s\<lparr>completeListeners := completeListeners s - 1\<rparr> in
         if completeListeners s1 = 0
         then s1\<lparr>hasActiveListeners := False\<rparr>
         else s1)
      else s)"
| "invoke (Callback n) args s = record_effect (Invoke n args) s"
| "invoke (PromiseReject p) args s = settle p (Rejected (arg0 args)) s"
| "invoke (PromiseResolve p) args s = settle p (Fulfilled (JArr [arg0 args])) s"

definition listenersOf :: "string \<Rightarrow> operation \<Rightarrow> listener list" where
  "listenersOf ev s = map snd (filter (\<lambda>el. fst el = ev) (events s))"

text \<open>
  \<^verbatim>\<open>EventEmitter.prototype.emit\<close>: the listeners registered for the event at the time
  of the call run in registration order; an \<^verbatim>\<open>error\<close> event without a listener is thrown.
\<close>

definition emit :: "string \<Rightarrow> jsval list \<Rightarrow> operation \<Rightarrow> operation" where
  "emit ev args s =
     (let ls = listenersOf ev s; s1 = record_effect (Emit ev args) s in
      if ev = ''error'' \<and> ls = []
      then record_effect (Uncaught (Thrown (arg0 args))) s1
      else fold (\<lambda>l. invoke l args) ls s1)"

text \<open>
  \<^verbatim>\<open>EventEmitter.prototype.on\<close>: \<^verbatim>\<open>newListener\<close> is emitted before the listener is
  added, when that event has a listener. (The second argument of the meta-events, the
  listener function, is not read by the hooks and is left out.)
\<close>

definition on :: "string \<Rightarrow> listener \<Rightarrow> operation \<Rightarrow> operation" where
  "on ev l s =
     (let s1 = (if listenersOf ''newListener'' s \<noteq> []
                then emit ''newListener'' [JStr ev] s else s)
      in s1\<lparr>events := events s1 @ [(ev, l)]\<rparr>)"

fun remove_last :: "'a \<Rightarrow> 'a list \<Rightarrow> 'a list" where
  "remove_last x [] = []"
| "remove_last x (y # ys) =
     (if x \<in> set ys then y # remove_last x ys else if x = y then ys else y # ys)"

text \<open>
  \<^verbatim>\<open>EventEmitter.prototype.removeListener\<close>: the most recently added instance is
  removed, and \<^verbatim>\<open>removeListener\<close> is emitted afterwards; nothing happens when the
  listener is not registered for the event.
\<close>

definition removeListener :: "string \<Rightarrow> listener \<Rightarrow> operation \<Rightarrow> operation" where
  "removeListener ev l s =
     (if (ev, l) \<in> set (events s) then
        (let s1 = s\<lparr>events := remove_last (ev, l) (events s)\<rparr> in
         if listenersOf ''removeListener'' s1 \<noteq> []
         then emit ''removeListener'' [JStr ev] s1 else s1)
      else s)"

text \<open>\<^verbatim>\<open>Operation.prototype.listenForEvents_\<close>\<close>

definition listenForEvents :: "operation \<Rightarrow> operation" where
  "listenForEvents s =
     on ''removeListener'' RemoveListenerHook (on ''newListener'' NewListenerHook s)"

text \<open>The constructor \<^verbatim>\<open>Operation(parent, name)\<close>.\<close>

definition Operation :: "Functions \<Rightarrow> jsval \<Rightarrow> operation" where
  "Operation par nm =
     listenForEvents
       \<lparr>name = nm, parent = par, completeListeners = 0, hasActiveListeners = False,
        events = [], pendingGets = 0, timers = [], promises = [], trace = []\<rparr>"

text \<open>\<^verbatim>\<open>Functions.prototype.operation\<close>\<close>

definition operation :: "Functions \<Rightarrow> jsval \<Rightarrow> js_error + operation" where
  "operation this nm =
     (if \<not> truthy nm then Inl (Error ''A name must be specified for an operation.'')
      else Inr (Operation this nm))"

text \<open>
  \<^verbatim>\<open>Operation.prototype.promise\<close>: the executor runs at once and registers the two
  closures; the result is the index of the new promise.
\<close>

definition promise :: "operation \<Rightarrow> nat \<times> operation" where
  "promise s =
     (let p = length (promises s);
          s1 = s\<lparr>promises := promises s @ [Pending]\<rparr>
      in (p, on ''complete'' (PromiseResolve p) (on ''error'' (PromiseReject p) s1)))"

text \<open>\<^verbatim>\<open>setTimeout(self.startPolling_.bind(self), 500)\<close>\<close>

definition schedulePoll :: "operation \<Rightarrow> operation" where
  "schedulePoll s = record_effect (SetTimeout 500) (s\<lparr>timers := timers s @ [500]\<rparr>)"

text \<open>
  The callback that \<^verbatim>\<open>startPolling_\<close> passes to \<^verbatim>\<open>get\<close>, called with \<open>(err, resp)\<close>.
  The status decoration hook \<^verbatim>\<open>common.GrpcService.decorateStatus_\<close> is a parameter.
\<close>

definition pollCallback ::
  "(jsval \<Rightarrow> jsval) \<Rightarrow> jsval \<Rightarrow> jsval \<Rightarrow> operation \<Rightarrow> operation" where
  "pollCallback decorateStatus err resp s =
     (if truthy err then emit ''error'' [err] s
      else case js_prop resp ''error'' of
        Inl e \<Rightarrow> record_effect (Uncaught e) s
      | Inr er \<Rightarrow>
          if truthy er then
            (case js_prop resp ''result'' of
               Inl e \<Rightarrow> record_effect (Uncaught e) s
             | Inr res \<Rightarrow> emit ''error'' [decorateStatus res] s)
          else
            (case js_prop resp ''done'' of
               Inl e \<Rightarrow> record_effect (Uncaught e) s
             | Inr d \<Rightarrow>
                 if \<not> truthy d then schedulePoll s
                 else emit ''complete'' [resp] s))"


section \<open>Executions\<close>

text \<open>
  What can happen to an Operation: the caller subscribes or unsubscribes a callback with
  \<^verbatim>\<open>on\<close> and \<^verbatim>\<open>removeListener\<close>, or asks for a promise; a pending request answers with
  \<open>(err, resp)\<close>; the oldest pending timer fires. An answer without a pending request and
  a firing without a pending timer cannot happen, and leave the state as it is. Each action
  runs to completion before the next, as on the JavaScript event loop. Callbacks of the
  caller are opaque: what they do to the Operation appears as later actions.
\<close>

datatype action =
    Subscribe string nat
  | Unsubscribe string nat
  | AskPromise
  | Response jsval jsval
  | TimerFires

definition step :: "(jsval \<Rightarrow> jsval) \<Rightarrow> operation \<Rightarrow> action \<Rightarrow> operation" where
  "step decorateStatus s a =
     (case a of
        Subscribe ev n \<Rightarrow> on ev (Callback n) s
      | Unsubscribe ev n \<Rightarrow> removeListener ev (Callback n) s
      | AskPromise \<Rightarrow> snd (promise s)
      | Response err resp \<Rightarrow>
          (if pendingGets s = 0 then s
           else pollCallback decorateStatus err resp (s\<lparr>pendingGets := pendingGets s - 1\<rparr>))
      | TimerFires \<Rightarrow>
          (case timers s of [] \<Rightarrow> s | t # ts \<Rightarrow> startPolling (s\<lparr>timers := ts\<rparr>)))"

fun run :: "(jsval \<Rightarrow> jsval) \<Rightarrow> operation \<Rightarrow> action list \<Rightarrow> operation" where
  "run d s [] = s"
| "run d s (a # as) = run d (step d s a) as"

text \<open>Projections of a trace.\<close>

fun is_fetch :: "effect \<Rightarrow> bool" where
  "is_fetch (GetOperation v) = True"
| "is_fetch e = False"

fun is_terminal :: "effect \<Rightarrow> bool" where
  "is_terminal (Emit ev args) = (ev = ''complete'' \<or> ev = ''error'')"
| "is_terminal e = False"

definition fetches :: "operation \<Rightarrow> effect list" where
  "fetches s = filter is_fetch (trace s)"

definition emitted :: "string \<Rightarrow> operation \<Rightarrow> jsval list list" where
  "emitted ev s = concat (map (\<lambda>e. case e of Emit ev' args \<Rightarrow> if ev' = ev then [args] else []
                                      | _ \<Rightarrow> []) (trace s))"


text \<open>The requests and terminal events of a trace, in order.\<close>

definition marks :: "operation \<Rightarrow> effect list" where
  "marks s = filter (\<lambda>e. is_fetch e \<or> is_terminal e) (trace s)"

text \<open>
  What is in flight of the polling: every pending request and every pending timer
  continues one poll loop.
\<close>

definition inFlight :: "operation \<Rightarrow> nat" where
  "inFlight s = pendingGets s + length (timers s)"

text \<open>The requests issued after the first terminal event.\<close>

definition fetches_after_terminal :: "operation \<Rightarrow> effect list" where
  "fetches_after_terminal s = filter is_fetch (dropWhile (\<lambda>e. \<not> is_terminal e) (trace s))"

text \<open>The actions that register a \<^verbatim>\<open>complete\<close> listener, and those that remove a listener.\<close>

fun subscribes_complete :: "action \<Rightarrow> bool" where
  "subscribes_complete (Subscribe ev n) = (ev = ''complete'')"
| "subscribes_complete AskPromise = True"
| "subscribes_complete a = False"

fun is_unsubscribe :: "action \<Rightarrow> bool" where
  "is_unsubscribe (Unsubscribe ev n) = True"
| "is_unsubscribe a = False"

text \<open>
  An execution in which \<open>hasActiveListeners\<close>, once set, is never cleared: no
  unsubscription takes the number of \<^verbatim>\<open>complete\<close> listeners back to zero.
\<close>

fun stays_active :: "(jsval \<Rightarrow> jsval) \<Rightarrow> operation \<Rightarrow> action list \<Rightarrow> bool" where
  "stays_active d s [] = True"
| "stays_active d s (a # as) =
     ((hasActiveListeners s \<longrightarrow> hasActiveListeners (step d s a)) \<and> stays_active d (step d s a) as)"

text \<open>
  The shape of the registry in every reachable state: the two hooks of
  \<^verbatim>\<open>listenForEvents_\<close> come first, under their events, and are the only hooks;
  \<open>completeListeners\<close> counts the \<^verbatim>\<open>complete\<close> entries and \<open>hasActiveListeners\<close> says
  whether there is one.
\<close>

fun user_listener :: "listener \<Rightarrow> bool" where
  "user_listener NewListenerHook = False"
| "user_listener RemoveListenerHook = False"
| "user_listener l = True"

definition userEvents :: "operation \<Rightarrow> (string \<times> listener) list" where
  "userEvents s = drop 2 (events s)"

definition userListeners :: "string \<Rightarrow> operation \<Rightarrow> listener list" where
  "userListeners ev s = map snd (filter (\<lambda>el. fst el = ev) (userEvents s))"

definition shaped :: "operation \<Rightarrow> bool" where
  "shaped s =
     (take 2 (events s) = [(''newListener'', NewListenerHook), (''removeListener'', RemoveListenerHook)]
      \<and> list_all (\<lambda>e. user_listener (snd e)) (userEvents s))"

definition wellformed :: "operation \<Rightarrow> bool" where
  "wellformed s =
     (shaped s
      \<and> completeListeners s = int (length (userListeners ''complete'' s))
      \<and> hasActiveListeners s = (0 < completeListeners s))"

text \<open>
  \<open>quiet s s'\<close>: \<open>s'\<close> differs from \<open>s\<close> at most in the promises settled and in effects
  that are neither a request nor a terminal event (callbacks invoked, exceptions).
\<close>

definition quiet :: "operation \<Rightarrow> operation \<Rightarrow> bool" where
  "quiet s s' =
     (name s' = name s \<and> parent s' = parent s
      \<and> completeListeners s' = completeListeners s
      \<and> hasActiveListeners s' = hasActiveListeners s
      \<and> events s' = events s \<and> pendingGets s' = pendingGets s \<and> timers s' = timers s
      \<and> length (promises s') = length (promises s)
      \<and> marks s' = marks s)"




text \<open>
  The invariants of the poll loop. In an execution without unsubscription at most one
  loop is in flight, and none unless a listener is active (\<open>single_loop\<close>). In an
  execution where \<open>hasActiveListeners\<close> is never cleared, moreover, nothing is in flight
  once a terminal event has been emitted, and no request follows it (\<open>settled\<close>).
\<close>

definition single_loop :: "operation \<Rightarrow> bool" where
  "single_loop s = (inFlight s \<le> 1 \<and> (\<not> hasActiveListeners s \<longrightarrow> inFlight s = 0))"

definition settled :: "operation \<Rightarrow> bool" where
  "settled s =
     (single_loop s
      \<and> (\<not> hasActiveListeners s \<longrightarrow> marks s = [])
      \<and> (list_ex is_terminal (marks s) \<longrightarrow> inFlight s = 0)
      \<and> filter is_fetch (dropWhile (\<lambda>e. \<not> is_terminal e) (marks s)) = [])"

text \<open>
  Executions in which a \<^verbatim>\<open>complete\<close> listener that registers while none is active finds
  nothing in flight (\<open>starts_idle\<close>) and, moreover, no terminal event emitted yet
  (\<open>starts_fresh\<close>).
\<close>

fun starts_idle :: "(jsval \<Rightarrow> jsval) \<Rightarrow> operation \<Rightarrow> action list \<Rightarrow> bool" where
  "starts_idle d s [] = True"
| "starts_idle d s (a # as) =
     ((subscribes_complete a \<and> \<not> hasActiveListeners s \<longrightarrow> inFlight s = 0)
      \<and> starts_idle d (step d s a) as)"

fun starts_fresh :: "(jsval \<Rightarrow> jsval) \<Rightarrow> operation \<Rightarrow> action list \<Rightarrow> bool" where
  "starts_fresh d s [] = True"
| "starts_fresh d s (a # as) =
     ((subscribes_complete a \<and> \<not> hasActiveListeners s \<longrightarrow>
         inFlight s = 0 \<and> \<not> list_ex is_terminal (trace s))
      \<and> starts_fresh d (step d s a) as)"


text \<open>
  \<open>calm\<close>: at most one poll loop is in flight, none once a terminal event has been
  emitted, and no request follows a terminal event. \<open>grows s s'\<close>: the trace of \<open>s'\<close>
  extends that of \<open>s\<close>.
\<close>

definition calm :: "operation \<Rightarrow> bool" where
  "calm s =
     (inFlight s \<le> 1
      \<and> (list_ex is_terminal (marks s) \<longrightarrow> inFlight s = 0)
      \<and> filter is_fetch (dropWhile (\<lambda>e. \<not> is_terminal e) (marks s)) = [])"




section \<open>Basic facts\<close>

lemma indexOf_ge: "indexOf s c \<ge> -1"
  by (induction s) (auto simp: Let_def)

lemma indexOf_found: "(indexOf s c > -1) = (c \<in> set s)"
proof (induction s)
  case Nil
  show ?case by simp
next
  case (Cons x xs)
  have "indexOf xs c \<ge> -1" by (rule indexOf_ge)
  with Cons show ?case by (auto simp: Let_def)
qed

lemma functionPath_documented_slash:
  "functionPath_documented p r n = Inr s \<Longrightarrow> CHR ''/'' \<in> set s"
  by (auto simp: functionPath_documented_def split: jsval.splits)

lemma emitted_record_effect:
  "emitted ev (record_effect e s) =
     emitted ev s @ (case e of Emit ev' args \<Rightarrow> if ev' = ev then [args] else [] | _ \<Rightarrow> [])"
  by (simp add: emitted_def record_effect_def)

lemma emitted_settle: "emitted ev (settle p v s) = emitted ev s"
  by (simp add: emitted_def settle_def)

lemma emitted_invoke: "emitted ev (invoke l args s) = emitted ev s"
  by (cases l)
     (simp_all add: emitted_record_effect emitted_settle startPolling_def get_def Let_def,
      simp_all add: emitted_def)

lemma emitted_fold_invoke: "emitted ev (fold (\<lambda>l. invoke l args) ls s) = emitted ev s"
  by (induction ls arbitrary: s) (simp_all add: emitted_invoke)

lemma emitted_emit:
  "emitted ev (emit ev' args s) = emitted ev s @ (if ev' = ev then [args] else [])"
  by (simp add: emit_def Let_def emitted_fold_invoke emitted_record_effect)


lemma timers_invoke: "timers (invoke l args s) = timers s"
  by (cases l) (simp_all add: startPolling_def get_def record_effect_def settle_def Let_def)

lemma timers_fold_invoke: "timers (fold (\<lambda>l. invoke l args) ls s) = timers s"
  by (induction ls arbitrary: s) (simp_all add: timers_invoke)

lemma timers_emit: "timers (emit ev args s) = timers s"
  by (simp add: emit_def Let_def timers_fold_invoke record_effect_def)

section \<open>The registry and the poll loop\<close>

text \<open>
  Listeners of the caller and of promises leave the Operation's own fields alone; the two
  hooks do the accounting. The lemmas below describe each operation on a state whose
  registry has the shape set up by the constructor, field by field.
\<close>

lemma quiet_refl: "quiet s s"
  by (simp add: quiet_def)

lemma quiet_trans: "quiet s t \<Longrightarrow> quiet t u \<Longrightarrow> quiet s u"
  by (simp add: quiet_def)

lemma quiet_invoke: "user_listener l \<Longrightarrow> quiet s (invoke l args s)"
  by (cases l) (simp_all add: quiet_def marks_def record_effect_def settle_def)

lemma quiet_fold_invoke:
  "list_all user_listener ls \<Longrightarrow> quiet s (fold (\<lambda>l. invoke l args) ls s)"
proof (induction ls arbitrary: s)
  case Nil
  show ?case by (simp add: quiet_refl)
next
  case (Cons l ls)
  from Cons.prems have "quiet s (invoke l args s)" by (simp add: quiet_invoke)
  moreover from Cons have "quiet (invoke l args s) (fold (\<lambda>l. invoke l args) ls (invoke l args s))"
    by simp
  ultimately show ?case by (auto intro: quiet_trans)
qed

lemma shaped_events:
  assumes "shaped s"
  shows "events s = (''newListener'', NewListenerHook) # (''removeListener'', RemoveListenerHook) # userEvents s"
proof -
  from assms have "take 2 (events s) = [(''newListener'', NewListenerHook), (''removeListener'', RemoveListenerHook)]"
    by (simp add: shaped_def)
  moreover have "events s = take 2 (events s) @ drop 2 (events s)" by simp
  ultimately show ?thesis by (simp add: userEvents_def)
qed

lemma userListeners_user: "shaped s \<Longrightarrow> list_all user_listener (userListeners ev s)"
  by (auto simp: shaped_def userListeners_def list_all_iff)

lemma listenersOf_shaped:
  "shaped s \<Longrightarrow>
     listenersOf ev s =
       (if ev = ''newListener'' then [NewListenerHook] else [])
       @ (if ev = ''removeListener'' then [RemoveListenerHook] else [])
       @ userListeners ev s"
  by (simp add: listenersOf_def userListeners_def shaped_events)

lemma emit_user_quiet:
  assumes "shaped s" "ev \<noteq> ''newListener''" "ev \<noteq> ''removeListener''"
  shows "quiet (record_effect (Emit ev args) s) (emit ev args s)"
proof -
  from assms have ls: "listenersOf ev s = userListeners ev s"
    by (simp add: listenersOf_shaped)
  have u: "list_all user_listener (userListeners ev s)"
    using assms(1) by (rule userListeners_user)
  show ?thesis
  proof (cases "ev = ''error'' \<and> userListeners ev s = []")
    case True
    have "emit ev args s
        = record_effect (Uncaught (Thrown (arg0 args))) (record_effect (Emit ev args) s)"
      unfolding emit_def Let_def ls using True by auto
    then show ?thesis
      by (simp add: quiet_def marks_def record_effect_def)
  next
    case False
    have "emit ev args s
        = fold (\<lambda>l. invoke l args) (userListeners ev s) (record_effect (Emit ev args) s)"
      unfolding emit_def Let_def ls using False by auto
    with u show ?thesis by (simp add: quiet_fold_invoke)
  qed
qed

lemma emit_newListener_quiet:
  assumes "shaped s"
  shows "quiet (invoke NewListenerHook [JStr ev] (record_effect (Emit ''newListener'' [JStr ev]) s))
           (emit ''newListener'' [JStr ev] s)"
proof -
  from assms have ls: "listenersOf ''newListener'' s = NewListenerHook # userListeners ''newListener'' s"
    by (simp add: listenersOf_shaped)
  have u: "list_all user_listener (userListeners ''newListener'' s)"
    using assms by (rule userListeners_user)
  have "emit ''newListener'' [JStr ev] s
      = fold (\<lambda>l. invoke l [JStr ev]) (userListeners ''newListener'' s)
          (invoke NewListenerHook [JStr ev] (record_effect (Emit ''newListener'' [JStr ev]) s))"
    by (simp add: emit_def ls Let_def)
  with u show ?thesis by (simp add: quiet_fold_invoke)
qed

lemma emit_removeListener_quiet:
  assumes "shaped s"
  shows "quiet (invoke RemoveListenerHook [JStr ev] (record_effect (Emit ''removeListener'' [JStr ev]) s))
           (emit ''removeListener'' [JStr ev] s)"
proof -
  from assms have ls: "listenersOf ''removeListener'' s = RemoveListenerHook # userListeners ''removeListener'' s"
    by (simp add: listenersOf_shaped)
  have u: "list_all user_listener (userListeners ''removeListener'' s)"
    using assms by (rule userListeners_user)
  have "emit ''removeListener'' [JStr ev] s
      = fold (\<lambda>l. invoke l [JStr ev]) (userListeners ''removeListener'' s)
          (invoke RemoveListenerHook [JStr ev] (record_effect (Emit ''removeListener'' [JStr ev]) s))"
    by (simp add: emit_def ls Let_def)
  with u show ?thesis by (simp add: quiet_fold_invoke)
qed

lemma on_summary:
  assumes "shaped s"
  shows "events (on ev l s) = events s @ [(ev, l)]"
    and "completeListeners (on ev l s) = completeListeners s + (if ev = ''complete'' then 1 else 0)"
    and "hasActiveListeners (on ev l s) = (hasActiveListeners s \<or> ev = ''complete'')"
    and "pendingGets (on ev l s)
          = pendingGets s + (if ev = ''complete'' \<and> \<not> hasActiveListeners s then 1 else 0)"
    and "timers (on ev l s) = timers s"
    and "name (on ev l s) = name s"
    and "length (promises (on ev l s)) = length (promises s)"
    and "marks (on ev l s)
          = marks s @ (if ev = ''complete'' \<and> \<not> hasActiveListeners s
                       then [GetOperation (JObj [(''name'', name s)])] else [])"
proof -
  let ?h = "invoke NewListenerHook [JStr ev] (record_effect (Emit ''newListener'' [JStr ev]) s)"
  let ?e = "emit ''newListener'' [JStr ev] s"
  from assms have q: "quiet ?h ?e" by (rule emit_newListener_quiet)
  from assms have "listenersOf ''newListener'' s \<noteq> []" by (simp add: listenersOf_shaped)
  then have o: "on ev l s = ?e\<lparr>events := events ?e @ [(ev, l)]\<rparr>"
    by (simp add: on_def Let_def)
  show "events (on ev l s) = events s @ [(ev, l)]"
    using q by (simp add: o quiet_def startPolling_def get_def record_effect_def Let_def)
  show "completeListeners (on ev l s) = completeListeners s + (if ev = ''complete'' then 1 else 0)"
    using q by (simp add: o quiet_def startPolling_def get_def record_effect_def Let_def)
  show "hasActiveListeners (on ev l s) = (hasActiveListeners s \<or> ev = ''complete'')"
    using q by (auto simp: o quiet_def startPolling_def get_def record_effect_def Let_def)
  show "pendingGets (on ev l s)
          = pendingGets s + (if ev = ''complete'' \<and> \<not> hasActiveListeners s then 1 else 0)"
    using q by (simp add: o quiet_def startPolling_def get_def record_effect_def Let_def)
  show "timers (on ev l s) = timers s"
    using q by (simp add: o quiet_def startPolling_def get_def record_effect_def Let_def)
  show "name (on ev l s) = name s"
    using q by (simp add: o quiet_def startPolling_def get_def record_effect_def Let_def)
  show "length (promises (on ev l s)) = length (promises s)"
    using q by (simp add: o quiet_def startPolling_def get_def record_effect_def Let_def)
  have "marks (on ev l s) = marks ?e" by (simp add: o marks_def)
  also have "\<dots> = marks ?h" using q by (simp add: quiet_def)
  also have "\<dots> = marks s @ (if ev = ''complete'' \<and> \<not> hasActiveListeners s
                       then [GetOperation (JObj [(''name'', name s)])] else [])"
    by (simp add: marks_def startPolling_def get_def record_effect_def Let_def)
  finally show "marks (on ev l s)
          = marks s @ (if ev = ''complete'' \<and> \<not> hasActiveListeners s
                       then [GetOperation (JObj [(''name'', name s)])] else [])" .
qed

lemma remove_last_notin: "x \<notin> set xs \<Longrightarrow> remove_last x xs = xs"
  by (induction xs) auto

lemma remove_last_Cons_ne: "x \<noteq> y \<Longrightarrow> remove_last x (y # ys) = y # remove_last x ys"
  by (simp add: remove_last_notin)

lemma set_remove_last: "set (remove_last x xs) \<subseteq> set xs"
  by (induction xs) auto

lemma filter_remove_last:
  "x \<in> set xs \<Longrightarrow>
     length (filter P (remove_last x xs)) + (if P x then 1 else 0) = length (filter P xs)"
  by (induction xs) auto

lemma userEvents_removed:
  assumes "shaped s" "user_listener l"
  shows "shaped (s\<lparr>events := remove_last (ev, l) (events s)\<rparr>)"
    and "userEvents (s\<lparr>events := remove_last (ev, l) (events s)\<rparr>)
          = remove_last (ev, l) (userEvents s)"
proof -
  from assms(2) have ne: "(ev, l) \<noteq> (''newListener'', NewListenerHook)"
    "(ev, l) \<noteq> (''removeListener'', RemoveListenerHook)" by auto
  have ev: "events s = (''newListener'', NewListenerHook) # (''removeListener'', RemoveListenerHook) # userEvents s"
    using assms(1) by (rule shaped_events)
  have r: "remove_last (ev, l) (events s)
      = (''newListener'', NewListenerHook) # (''removeListener'', RemoveListenerHook)
          # remove_last (ev, l) (userEvents s)"
    by (subst ev) (simp only: remove_last_Cons_ne [OF ne(1)] remove_last_Cons_ne [OF ne(2)])
  show u: "userEvents (s\<lparr>events := remove_last (ev, l) (events s)\<rparr>)
          = remove_last (ev, l) (userEvents s)"
    by (simp add: userEvents_def r)
  from assms(1) have "list_all (\<lambda>e. user_listener (snd e)) (userEvents s)"
    by (simp add: shaped_def)
  with set_remove_last [of "(ev, l)" "userEvents s"]
  have "list_all (\<lambda>e. user_listener (snd e)) (remove_last (ev, l) (userEvents s))"
    by (auto simp: list_all_iff)
  then show "shaped (s\<lparr>events := remove_last (ev, l) (events s)\<rparr>)"
    unfolding shaped_def u by (simp add: r)
qed

lemma removeListener_absent:
  "(ev, l) \<notin> set (events s) \<Longrightarrow> removeListener ev l s = s"
  by (simp add: removeListener_def)

lemma removeListener_summary:
  assumes "shaped s" "user_listener l" "(ev, l) \<in> set (events s)"
  shows "events (removeListener ev l s) = remove_last (ev, l) (events s)"
    and "completeListeners (removeListener ev l s)
          = completeListeners s - (if ev = ''complete'' then 1 else 0)"
    and "hasActiveListeners (removeListener ev l s)
          = (if ev = ''complete'' \<and> completeListeners s - 1 = 0 then False
             else hasActiveListeners s)"
    and "pendingGets (removeListener ev l s) = pendingGets s"
    and "timers (removeListener ev l s) = timers s"
    and "name (removeListener ev l s) = name s"
    and "length (promises (removeListener ev l s)) = length (promises s)"
    and "marks (removeListener ev l s) = marks s"
proof -
  let ?s1 = "s\<lparr>events := remove_last (ev, l) (events s)\<rparr>"
  let ?h = "invoke RemoveListenerHook [JStr ev] (record_effect (Emit ''removeListener'' [JStr ev]) ?s1)"
  let ?e = "emit ''removeListener'' [JStr ev] ?s1"
  from assms have sh: "shaped ?s1" by (simp add: userEvents_removed)
  then have q: "quiet ?h ?e" by (rule emit_removeListener_quiet)
  from sh have "listenersOf ''removeListener'' ?s1 \<noteq> []" by (simp add: listenersOf_shaped)
  with assms(3) have o: "removeListener ev l s = ?e"
    by (simp add: removeListener_def Let_def)
  show "events (removeListener ev l s) = remove_last (ev, l) (events s)"
    using q by (simp add: o quiet_def record_effect_def Let_def)
  show "completeListeners (removeListener ev l s)
          = completeListeners s - (if ev = ''complete'' then 1 else 0)"
    using q by (simp add: o quiet_def record_effect_def Let_def)
  show "hasActiveListeners (removeListener ev l s)
          = (if ev = ''complete'' \<and> completeListeners s - 1 = 0 then False
             else hasActiveListeners s)"
    using q by (simp add: o quiet_def record_effect_def Let_def)
  show "pendingGets (removeListener ev l s) = pendingGets s"
    using q by (simp add: o quiet_def record_effect_def Let_def)
  show "timers (removeListener ev l s) = timers s"
    using q by (simp add: o quiet_def record_effect_def Let_def)
  show "name (removeListener ev l s) = name s"
    using q by (simp add: o quiet_def record_effect_def Let_def)
  show "length (promises (removeListener ev l s)) = length (promises s)"
    using q by (simp add: o quiet_def record_effect_def Let_def)
  have "marks (removeListener ev l s) = marks ?h" using q by (simp add: o quiet_def)
  also have "\<dots> = marks s" by (simp add: marks_def record_effect_def Let_def)
  finally show "marks (removeListener ev l s) = marks s" .
qed

lemma shaped_on:
  assumes "shaped s" "user_listener l"
  shows "shaped (on ev l s)" and "userEvents (on ev l s) = userEvents s @ [(ev, l)]"
proof -
  have e: "events (on ev l s) = events s @ [(ev, l)]" using assms(1) by (rule on_summary)
  have ev: "events s = (''newListener'', NewListenerHook) # (''removeListener'', RemoveListenerHook) # userEvents s"
    using assms(1) by (rule shaped_events)
  show u: "userEvents (on ev l s) = userEvents s @ [(ev, l)]"
    unfolding userEvents_def e by (subst ev, subst ev) simp
  from assms show "shaped (on ev l s)"
    unfolding shaped_def u e by (subst ev) (simp add: shaped_def)
qed

lemma wellformed_on:
  assumes "wellformed s" "user_listener l"
  shows "wellformed (on ev l s)"
proof -
  from assms have sh: "shaped s" by (simp add: wellformed_def)
  from sh assms(2) have sh': "shaped (on ev l s)"
    and u: "userEvents (on ev l s) = userEvents s @ [(ev, l)]"
    by (rule shaped_on)+
  from assms(1) have c: "completeListeners s = int (length (userListeners ''complete'' s))"
    and h: "hasActiveListeners s = (0 < completeListeners s)"
    by (simp_all add: wellformed_def)
  show ?thesis
    unfolding wellformed_def
    using sh' c h
    by (auto simp: on_summary [OF sh] userListeners_def u)
qed

lemma removeListener_same_shape:
  assumes "shaped s" "user_listener l"
  shows "shaped (removeListener ev l s)"
proof (cases "(ev, l) \<in> set (events s)")
  case True
  have e: "events (removeListener ev l s) = remove_last (ev, l) (events s)"
    using assms True by (rule removeListener_summary)
  from userEvents_removed(1) [OF assms, of ev] show ?thesis
    by (simp add: shaped_def userEvents_def e)
next
  case False
  with assms show ?thesis by (simp add: removeListener_absent)
qed

lemma wellformed_removeListener:
  assumes "wellformed s" "user_listener l"
  shows "wellformed (removeListener ev l s)"
proof (cases "(ev, l) \<in> set (events s)")
  case False
  with assms show ?thesis by (simp add: removeListener_absent)
next
  case True
  from assms have sh: "shaped s" by (simp add: wellformed_def)
  have e: "events (removeListener ev l s) = remove_last (ev, l) (events s)"
    using sh assms(2) True by (rule removeListener_summary)
  have u: "userEvents (removeListener ev l s) = remove_last (ev, l) (userEvents s)"
    using userEvents_removed(2) [OF sh assms(2), of ev] by (simp add: userEvents_def e)
  from assms(2) True have mem: "(ev, l) \<in> set (userEvents s)"
    by (subst (asm) shaped_events [OF sh]) auto
  from assms(1) have c: "completeListeners s = int (length (userListeners ''complete'' s))"
    and h: "hasActiveListeners s = (0 < completeListeners s)"
    by (simp_all add: wellformed_def)
  have len: "length (filter (\<lambda>el. fst el = ''complete'') (remove_last (ev, l) (userEvents s)))
        + (if ev = ''complete'' then 1 else 0)
      = length (filter (\<lambda>el. fst el = ''complete'') (userEvents s))"
    using filter_remove_last [OF mem, of "\<lambda>el. fst el = ''complete''"] by simp
  show ?thesis
    unfolding wellformed_def
    using removeListener_same_shape [OF sh assms(2), of ev] c h len
    by (auto simp: removeListener_summary [OF sh assms(2) True] userListeners_def u)
qed

lemma filter_fetch_marks:
  "filter is_fetch (filter (\<lambda>e. is_fetch e \<or> is_terminal e) es) = filter is_fetch es"
  by (induction es) auto

lemma fetches_marks: "fetches s = filter is_fetch (marks s)"
  by (simp only: fetches_def marks_def filter_fetch_marks)

lemma dropWhile_marks:
  "filter is_fetch (dropWhile (\<lambda>e. \<not> is_terminal e) (filter (\<lambda>e. is_fetch e \<or> is_terminal e) es))
     = filter is_fetch (dropWhile (\<lambda>e. \<not> is_terminal e) es)"
proof (induction es)
  case Nil
  show ?case by simp
next
  case (Cons e es)
  show ?case
  proof (cases "is_terminal e")
    case True
    have "filter (\<lambda>x. (is_fetch x \<or> is_terminal x) \<and> is_fetch x) es = filter is_fetch es"
      by (rule filter_cong) auto
    with True show ?thesis by simp
  next
    case False
    with Cons show ?thesis by simp
  qed
qed

lemma fetches_after_terminal_marks:
  "fetches_after_terminal s = filter is_fetch (dropWhile (\<lambda>e. \<not> is_terminal e) (marks s))"
  by (simp only: fetches_after_terminal_def marks_def dropWhile_marks)

lemma record_effect_fields:
  "name (record_effect e s) = name s"
  "completeListeners (record_effect e s) = completeListeners s"
  "hasActiveListeners (record_effect e s) = hasActiveListeners s"
  "events (record_effect e s) = events s"
  "pendingGets (record_effect e s) = pendingGets s"
  "timers (record_effect e s) = timers s"
  "promises (record_effect e s) = promises s"
  "marks (record_effect e s) = marks s @ (if is_fetch e \<or> is_terminal e then [e] else [])"
  by (simp_all add: record_effect_def marks_def)

lemma shaped_record_effect: "shaped (record_effect e s) = shaped s"
  by (simp add: shaped_def userEvents_def record_effect_def)

lemma emit_terminal_summary:
  assumes "shaped s" "ev = ''error'' \<or> ev = ''complete''"
  shows "events (emit ev args s) = events s"
    and "completeListeners (emit ev args s) = completeListeners s"
    and "hasActiveListeners (emit ev args s) = hasActiveListeners s"
    and "pendingGets (emit ev args s) = pendingGets s"
    and "timers (emit ev args s) = timers s"
    and "name (emit ev args s) = name s"
    and "length (promises (emit ev args s)) = length (promises s)"
    and "marks (emit ev args s) = marks s @ [Emit ev args]"
proof -
  from assms have "quiet (record_effect (Emit ev args) s) (emit ev args s)"
    by (intro emit_user_quiet) auto
  then show "events (emit ev args s) = events s"
    and "completeListeners (emit ev args s) = completeListeners s"
    and "hasActiveListeners (emit ev args s) = hasActiveListeners s"
    and "pendingGets (emit ev args s) = pendingGets s"
    and "timers (emit ev args s) = timers s"
    and "name (emit ev args s) = name s"
    and "length (promises (emit ev args s)) = length (promises s)"
    and "marks (emit ev args s) = marks s @ [Emit ev args]"
    using assms(2) by (auto simp: quiet_def record_effect_fields)
qed

lemma pollCallback_cases:
  "(\<exists>e. pollCallback d err resp s = record_effect (Uncaught e) s)
   \<or> (\<exists>ev v. (ev = ''error'' \<or> ev = ''complete'') \<and> pollCallback d err resp s = emit ev [v] s)
   \<or> pollCallback d err resp s = schedulePoll s"
proof (cases "truthy err")
  case True
  then have "pollCallback d err resp s = emit ''error'' [err] s" by (simp add: pollCallback_def)
  then show ?thesis by blast
next
  case ne: False
  show ?thesis
  proof (cases "js_prop resp ''error''")
    case (Inl e)
    with ne have "pollCallback d err resp s = record_effect (Uncaught e) s"
      by (simp add: pollCallback_def)
    then show ?thesis by blast
  next
    case er: (Inr er)
    show ?thesis
    proof (cases "truthy er")
      case True
      show ?thesis
      proof (cases "js_prop resp ''result''")
        case (Inl e)
        with ne er True have "pollCallback d err resp s = record_effect (Uncaught e) s"
          by (simp add: pollCallback_def)
        then show ?thesis by blast
      next
        case (Inr res)
        with ne er True have "pollCallback d err resp s = emit ''error'' [d res] s"
          by (simp add: pollCallback_def)
        then show ?thesis by blast
      qed
    next
      case nt: False
      show ?thesis
      proof (cases "js_prop resp ''done''")
        case (Inl e)
        with ne er nt have "pollCallback d err resp s = record_effect (Uncaught e) s"
          by (simp add: pollCallback_def)
        then show ?thesis by blast
      next
        case (Inr dn)
        show ?thesis
        proof (cases "truthy dn")
          case True
          with ne er nt Inr have "pollCallback d err resp s = emit ''complete'' [resp] s"
            by (simp add: pollCallback_def)
          then show ?thesis by blast
        next
          case False
          with ne er nt Inr have "pollCallback d err resp s = schedulePoll s"
            by (simp add: pollCallback_def)
          then show ?thesis by blast
        qed
      qed
    qed
  qed
qed

lemma schedulePoll_fields:
  "name (schedulePoll s) = name s"
  "completeListeners (schedulePoll s) = completeListeners s"
  "hasActiveListeners (schedulePoll s) = hasActiveListeners s"
  "events (schedulePoll s) = events s"
  "pendingGets (schedulePoll s) = pendingGets s"
  "timers (schedulePoll s) = timers s @ [500]"
  "promises (schedulePoll s) = promises s"
  "marks (schedulePoll s) = marks s"
  by (simp_all add: schedulePoll_def record_effect_def marks_def)

lemma pollCallback_summary:
  assumes "shaped s"
  shows "events (pollCallback d err resp s) = events s"
    and "completeListeners (pollCallback d err resp s) = completeListeners s"
    and "hasActiveListeners (pollCallback d err resp s) = hasActiveListeners s"
    and "pendingGets (pollCallback d err resp s) = pendingGets s"
    and "name (pollCallback d err resp s) = name s"
    and "length (promises (pollCallback d err resp s)) = length (promises s)"
    and "(timers (pollCallback d err resp s) = timers s
            \<and> (\<exists>ev v. (ev = ''error'' \<or> ev = ''complete'')
                  \<and> marks (pollCallback d err resp s) = marks s @ [Emit ev [v]]))
         \<or> (timers (pollCallback d err resp s) = timers s @ [500]
            \<and> marks (pollCallback d err resp s) = marks s)
         \<or> (timers (pollCallback d err resp s) = timers s
            \<and> marks (pollCallback d err resp s) = marks s)"
proof -
  note f = emit_terminal_summary [OF assms] record_effect_fields schedulePoll_fields
  from pollCallback_cases [of d err resp s]
  show "events (pollCallback d err resp s) = events s"
    by (elim disjE exE conjE) (simp_all add: f)
  from pollCallback_cases [of d err resp s]
  show "completeListeners (pollCallback d err resp s) = completeListeners s"
    by (elim disjE exE conjE) (simp_all add: f)
  from pollCallback_cases [of d err resp s]
  show "hasActiveListeners (pollCallback d err resp s) = hasActiveListeners s"
    by (elim disjE exE conjE) (simp_all add: f)
  from pollCallback_cases [of d err resp s]
  show "pendingGets (pollCallback d err resp s) = pendingGets s"
    by (elim disjE exE conjE) (simp_all add: f)
  from pollCallback_cases [of d err resp s]
  show "name (pollCallback d err resp s) = name s"
    by (elim disjE exE conjE) (simp_all add: f)
  from pollCallback_cases [of d err resp s]
  show "length (promises (pollCallback d err resp s)) = length (promises s)"
    by (elim disjE exE conjE) (simp_all add: f)
  from pollCallback_cases [of d err resp s]
  show "(timers (pollCallback d err resp s) = timers s
            \<and> (\<exists>ev v. (ev = ''error'' \<or> ev = ''complete'')
                  \<and> marks (pollCallback d err resp s) = marks s @ [Emit ev [v]]))
         \<or> (timers (pollCallback d err resp s) = timers s @ [500]
            \<and> marks (pollCallback d err resp s) = marks s)
         \<or> (timers (pollCallback d err resp s) = timers s
            \<and> marks (pollCallback d err resp s) = marks s)"
    by (elim disjE exE conjE) (simp_all add: f)
qed

lemma wellformed_cong:
  "events s' = events s \<Longrightarrow> completeListeners s' = completeListeners s
   \<Longrightarrow> hasActiveListeners s' = hasActiveListeners s \<Longrightarrow> wellformed s' = wellformed s"
  by (simp add: wellformed_def shaped_def userEvents_def userListeners_def)

lemma shaped_cong: "events s' = events s \<Longrightarrow> shaped s' = shaped s"
  by (simp add: shaped_def userEvents_def)

lemma wellformed_shaped: "wellformed s \<Longrightarrow> shaped s"
  by (simp add: wellformed_def)

lemma Operation_fresh:
  "wellformed (Operation par nm)"
  "\<not> hasActiveListeners (Operation par nm)"
  "completeListeners (Operation par nm) = 0"
  "pendingGets (Operation par nm) = 0"
  "timers (Operation par nm) = []"
  "promises (Operation par nm) = []"
  "name (Operation par nm) = nm"
  "marks (Operation par nm) = []"
  by (simp_all add: Operation_def listenForEvents_def on_def emit_def listenersOf_def
      record_effect_def wellformed_def shaped_def userEvents_def userListeners_def marks_def Let_def)

lemma startPolling_fields:
  "name (startPolling s) = name s"
  "completeListeners (startPolling s) = completeListeners s"
  "hasActiveListeners (startPolling s) = hasActiveListeners s"
  "events (startPolling s) = events s"
  "pendingGets (startPolling s) = pendingGets s + (if hasActiveListeners s then 1 else 0)"
  "timers (startPolling s) = timers s"
  "promises (startPolling s) = promises s"
  "marks (startPolling s)
     = marks s @ (if hasActiveListeners s then [GetOperation (JObj [(''name'', name s)])] else [])"
  by (simp_all add: startPolling_def get_def record_effect_def marks_def)

lemma promise_summary:
  assumes "shaped s"
  shows "events (snd (promise s))
          = events s @ [(''error'', PromiseReject (length (promises s))),
                        (''complete'', PromiseResolve (length (promises s)))]"
    and "completeListeners (snd (promise s)) = completeListeners s + 1"
    and "hasActiveListeners (snd (promise s))"
    and "pendingGets (snd (promise s))
          = pendingGets s + (if hasActiveListeners s then 0 else 1)"
    and "timers (snd (promise s)) = timers s"
    and "name (snd (promise s)) = name s"
    and "length (promises (snd (promise s))) = Suc (length (promises s))"
    and "marks (snd (promise s))
          = marks s @ (if hasActiveListeners s then []
                       else [GetOperation (JObj [(''name'', name s)])])"
proof -
  let ?p = "length (promises s)"
  let ?s1 = "s\<lparr>promises := promises s @ [Pending]\<rparr>"
  let ?s2 = "on ''error'' (PromiseReject ?p) ?s1"
  have p: "snd (promise s) = on ''complete'' (PromiseResolve ?p) ?s2"
    by (simp add: promise_def Let_def)
  from assms have sh1: "shaped ?s1" by (simp add: shaped_def userEvents_def)
  then have sh2: "shaped ?s2" by (simp add: shaped_on)
  note f = on_summary [OF sh2] on_summary [OF sh1]
  show "events (snd (promise s))
          = events s @ [(''error'', PromiseReject (length (promises s))),
                        (''complete'', PromiseResolve (length (promises s)))]"
    by (simp add: p f)
  show "completeListeners (snd (promise s)) = completeListeners s + 1" by (simp add: p f)
  show "hasActiveListeners (snd (promise s))" by (simp add: p f)
  show "pendingGets (snd (promise s)) = pendingGets s + (if hasActiveListeners s then 0 else 1)"
    by (simp add: p f)
  show "timers (snd (promise s)) = timers s" by (simp add: p f)
  show "name (snd (promise s)) = name s" by (simp add: p f)
  show "length (promises (snd (promise s))) = Suc (length (promises s))" by (simp add: p f)
  show "marks (snd (promise s))
          = marks s @ (if hasActiveListeners s then []
                       else [GetOperation (JObj [(''name'', name s)])])"
  proof -
    have "marks ?s1 = marks s" by (simp add: marks_def)
    then show ?thesis by (simp add: p f)
  qed
qed

lemma wellformed_promise:
  assumes "wellformed s"
  shows "wellformed (snd (promise s))"
proof -
  let ?p = "length (promises s)"
  let ?s1 = "s\<lparr>promises := promises s @ [Pending]\<rparr>"
  have p: "snd (promise s) = on ''complete'' (PromiseResolve ?p) (on ''error'' (PromiseReject ?p) ?s1)"
    by (simp add: promise_def Let_def)
  have "wellformed ?s1 = wellformed s" by (rule wellformed_cong) simp_all
  with assms have "wellformed ?s1" by simp
  then show ?thesis unfolding p by (intro wellformed_on) simp_all
qed

lemma wellformed_step:
  assumes "wellformed s"
  shows "wellformed (step d s a)"
proof (cases a)
  case (Subscribe ev n)
  with assms show ?thesis by (simp add: step_def wellformed_on)
next
  case (Unsubscribe ev n)
  with assms show ?thesis by (simp add: step_def wellformed_removeListener)
next
  case AskPromise
  with assms show ?thesis by (simp add: step_def wellformed_promise)
next
  case (Response err resp)
  let ?s1 = "s\<lparr>pendingGets := pendingGets s - 1\<rparr>"
  have "wellformed ?s1 = wellformed s" by (rule wellformed_cong) simp_all
  with assms have w1: "wellformed ?s1" by simp
  then have "shaped ?s1" by (rule wellformed_shaped)
  from pollCallback_summary(1-3) [OF this, of d err resp]
  have "wellformed (pollCallback d err resp ?s1) = wellformed ?s1"
    by (intro wellformed_cong)
  with w1 have "wellformed (pollCallback d err resp ?s1)" by simp
  with assms Response show ?thesis by (simp add: step_def)
next
  case TimerFires
  show ?thesis
  proof (cases "timers s")
    case Nil
    with assms TimerFires show ?thesis by (simp add: step_def)
  next
    case (Cons t ts)
    have "wellformed (startPolling (s\<lparr>timers := ts\<rparr>)) = wellformed s"
      by (rule wellformed_cong) (simp_all add: startPolling_fields)
    with assms have "wellformed (startPolling (s\<lparr>timers := ts\<rparr>))" by simp
    with Cons TimerFires show ?thesis by (simp add: step_def)
  qed
qed

lemma wellformed_run: "wellformed s \<Longrightarrow> wellformed (run d s acts)"
  by (induction acts arbitrary: s) (simp_all add: wellformed_step)

lemma run_append: "run d s (xs @ ys) = run d (run d s xs) ys"
  by (induction xs arbitrary: s) simp_all

lemma marks_update [simp]:
  "marks (s\<lparr>pendingGets := g\<rparr>) = marks s"
  "marks (s\<lparr>timers := ts\<rparr>) = marks s"
  "marks (s\<lparr>promises := ps\<rparr>) = marks s"
  by (simp_all add: marks_def)

lemma step_Response_none: "pendingGets s = 0 \<Longrightarrow> step d s (Response err resp) = s"
  by (simp add: step_def)

lemma step_Response:
  assumes "wellformed s" "0 < pendingGets s"
  shows "hasActiveListeners (step d s (Response err resp)) = hasActiveListeners s"
    and "completeListeners (step d s (Response err resp)) = completeListeners s"
    and "pendingGets (step d s (Response err resp)) = pendingGets s - 1"
    and "name (step d s (Response err resp)) = name s"
    and "(timers (step d s (Response err resp)) = timers s
            \<and> (\<exists>ev v. (ev = ''error'' \<or> ev = ''complete'')
                  \<and> marks (step d s (Response err resp)) = marks s @ [Emit ev [v]]))
         \<or> (timers (step d s (Response err resp)) = timers s @ [500]
            \<and> marks (step d s (Response err resp)) = marks s)
         \<or> (timers (step d s (Response err resp)) = timers s
            \<and> marks (step d s (Response err resp)) = marks s)"
proof -
  let ?s1 = "s\<lparr>pendingGets := pendingGets s - 1\<rparr>"
  from assms(2) have st: "step d s (Response err resp) = pollCallback d err resp ?s1"
    by (simp add: step_def)
  have "shaped ?s1 = shaped s" by (rule shaped_cong) simp
  with assms(1) have sh: "shaped ?s1" by (simp add: wellformed_shaped)
  note f = pollCallback_summary [OF sh, of d err resp]
  show "hasActiveListeners (step d s (Response err resp)) = hasActiveListeners s"
    unfolding st using f(3) by simp
  show "completeListeners (step d s (Response err resp)) = completeListeners s"
    unfolding st using f(2) by simp
  show "pendingGets (step d s (Response err resp)) = pendingGets s - 1"
    unfolding st using f(4) by simp
  show "name (step d s (Response err resp)) = name s"
    unfolding st using f(5) by simp
  from f(7) show "(timers (step d s (Response err resp)) = timers s
            \<and> (\<exists>ev v. (ev = ''error'' \<or> ev = ''complete'')
                  \<and> marks (step d s (Response err resp)) = marks s @ [Emit ev [v]]))
         \<or> (timers (step d s (Response err resp)) = timers s @ [500]
            \<and> marks (step d s (Response err resp)) = marks s)
         \<or> (timers (step d s (Response err resp)) = timers s
            \<and> marks (step d s (Response err resp)) = marks s)"
    unfolding st by simp
qed

lemma step_TimerFires_none: "timers s = [] \<Longrightarrow> step d s TimerFires = s"
  by (simp add: step_def)

lemma step_TimerFires:
  assumes "timers s = t # ts"
  shows "hasActiveListeners (step d s TimerFires) = hasActiveListeners s"
    and "completeListeners (step d s TimerFires) = completeListeners s"
    and "pendingGets (step d s TimerFires)
          = pendingGets s + (if hasActiveListeners s then 1 else 0)"
    and "timers (step d s TimerFires) = ts"
    and "name (step d s TimerFires) = name s"
    and "marks (step d s TimerFires)
          = marks s @ (if hasActiveListeners s then [GetOperation (JObj [(''name'', name s)])] else [])"
  using assms by (simp_all add: step_def startPolling_fields)

lemma step_Unsubscribe:
  assumes "wellformed s"
  shows "hasActiveListeners (step d s (Unsubscribe ev n)) \<longrightarrow> hasActiveListeners s"
    and "pendingGets (step d s (Unsubscribe ev n)) = pendingGets s"
    and "timers (step d s (Unsubscribe ev n)) = timers s"
    and "name (step d s (Unsubscribe ev n)) = name s"
    and "marks (step d s (Unsubscribe ev n)) = marks s"
proof -
  from assms have sh: "shaped s" by (rule wellformed_shaped)
  have u: "user_listener (Callback n)" by simp
  show "hasActiveListeners (step d s (Unsubscribe ev n)) \<longrightarrow> hasActiveListeners s"
    by (cases "(ev, Callback n) \<in> set (events s)")
       (simp_all add: step_def removeListener_absent removeListener_summary [OF sh u])
  show "pendingGets (step d s (Unsubscribe ev n)) = pendingGets s"
    by (cases "(ev, Callback n) \<in> set (events s)")
       (simp_all add: step_def removeListener_absent removeListener_summary [OF sh u])
  show "timers (step d s (Unsubscribe ev n)) = timers s"
    by (cases "(ev, Callback n) \<in> set (events s)")
       (simp_all add: step_def removeListener_absent removeListener_summary [OF sh u])
  show "name (step d s (Unsubscribe ev n)) = name s"
    by (cases "(ev, Callback n) \<in> set (events s)")
       (simp_all add: step_def removeListener_absent removeListener_summary [OF sh u])
  show "marks (step d s (Unsubscribe ev n)) = marks s"
    by (cases "(ev, Callback n) \<in> set (events s)")
       (simp_all add: step_def removeListener_absent removeListener_summary [OF sh u])
qed

lemma step_Subscribe:
  assumes "wellformed s"
  shows "hasActiveListeners (step d s (Subscribe ev n)) = (hasActiveListeners s \<or> ev = ''complete'')"
    and "completeListeners (step d s (Subscribe ev n))
          = completeListeners s + (if ev = ''complete'' then 1 else 0)"
    and "pendingGets (step d s (Subscribe ev n))
          = pendingGets s + (if ev = ''complete'' \<and> \<not> hasActiveListeners s then 1 else 0)"
    and "timers (step d s (Subscribe ev n)) = timers s"
    and "name (step d s (Subscribe ev n)) = name s"
    and "marks (step d s (Subscribe ev n))
          = marks s @ (if ev = ''complete'' \<and> \<not> hasActiveListeners s
                       then [GetOperation (JObj [(''name'', name s)])] else [])"
  using on_summary [OF wellformed_shaped [OF assms], of ev "Callback n"]
  by (simp_all add: step_def)

lemma step_AskPromise:
  assumes "wellformed s"
  shows "hasActiveListeners (step d s AskPromise)"
    and "completeListeners (step d s AskPromise) = completeListeners s + 1"
    and "pendingGets (step d s AskPromise)
          = pendingGets s + (if hasActiveListeners s then 0 else 1)"
    and "timers (step d s AskPromise) = timers s"
    and "name (step d s AskPromise) = name s"
    and "marks (step d s AskPromise)
          = marks s @ (if hasActiveListeners s then []
                       else [GetOperation (JObj [(''name'', name s)])])"
  using promise_summary [OF wellformed_shaped [OF assms]]
  by (simp_all add: step_def)

text \<open>While no listener is active and none registers, nothing is requested.\<close>

lemma step_idle:
  assumes "wellformed s" "\<not> hasActiveListeners s" "\<not> subscribes_complete a"
  shows "\<not> hasActiveListeners (step d s a) \<and> fetches (step d s a) = fetches s
         \<and> inFlight (step d s a) \<le> inFlight s"
proof (cases a)
  case (Subscribe ev n)
  with assms show ?thesis
    by (simp add: step_Subscribe fetches_marks inFlight_def)
next
  case (Unsubscribe ev n)
  with assms step_Unsubscribe [OF assms(1), of d ev n] show ?thesis
    by (simp add: fetches_marks inFlight_def)
next
  case AskPromise
  with assms show ?thesis by simp
next
  case (Response err resp)
  show ?thesis
  proof (cases "pendingGets s = 0")
    case True
    with assms Response show ?thesis by (simp add: step_Response_none)
  next
    case False
    then have pos: "0 < pendingGets s" by simp
    from step_Response [OF assms(1) pos, of d err resp] assms(2) Response pos show ?thesis
      by (auto simp: fetches_marks inFlight_def)
  qed
next
  case TimerFires
  show ?thesis
  proof (cases "timers s")
    case Nil
    with assms TimerFires show ?thesis by (simp add: step_TimerFires_none)
  next
    case (Cons t ts)
    from step_TimerFires [OF this, of d] assms(2) TimerFires Cons show ?thesis
      by (simp add: fetches_marks inFlight_def)
  qed
qed

lemma run_idle:
  assumes "wellformed s" "\<not> hasActiveListeners s" "\<not> list_ex subscribes_complete acts"
  shows "\<not> hasActiveListeners (run d s acts) \<and> fetches (run d s acts) = fetches s
         \<and> inFlight (run d s acts) \<le> inFlight s"
  using assms
proof (induction acts arbitrary: s)
  case Nil
  then show ?case by simp
next
  case (Cons a acts)
  from Cons.prems have a: "\<not> subscribes_complete a" and r: "\<not> list_ex subscribes_complete acts"
    by simp_all
  from step_idle [OF Cons.prems(1,2) a, of d]
  have s1: "\<not> hasActiveListeners (step d s a)" "fetches (step d s a) = fetches s"
    "inFlight (step d s a) \<le> inFlight s" by simp_all
  from Cons.prems(1) have "wellformed (step d s a)" by (rule wellformed_step)
  from Cons.IH [OF this s1(1) r] s1 show ?case by simp
qed


lemma single_loop_request:
  assumes "single_loop s" "0 < pendingGets s"
  shows "pendingGets s = 1" and "timers s = []" and "hasActiveListeners s"
proof -
  from assms have le: "pendingGets s + length (timers s) \<le> 1"
    by (simp add: single_loop_def inFlight_def)
  with assms(2) show "pendingGets s = 1" by arith
  from le assms(2) have "length (timers s) = 0" by arith
  then show "timers s = []" by simp
  from assms show "hasActiveListeners s"
    by (auto simp: single_loop_def inFlight_def)
qed

lemma single_loop_timer:
  assumes "single_loop s" "timers s = t # ts"
  shows "pendingGets s = 0" and "ts = []" and "hasActiveListeners s"
proof -
  from assms have le: "pendingGets s + Suc (length ts) \<le> 1"
    by (simp add: single_loop_def inFlight_def)
  then show "pendingGets s = 0" by arith
  from le have "length ts = 0" by arith
  then show "ts = []" by simp
  from assms show "hasActiveListeners s"
    by (auto simp: single_loop_def inFlight_def)
qed

lemma step_single_loop:
  assumes "wellformed s" "\<not> is_unsubscribe a" "single_loop s"
  shows "single_loop (step d s a)"
proof (cases a)
  case (Subscribe ev n)
  with assms show ?thesis
    by (auto simp: single_loop_def inFlight_def step_Subscribe)
next
  case (Unsubscribe ev n)
  with assms show ?thesis by simp
next
  case AskPromise
  with assms show ?thesis
    by (auto simp: single_loop_def inFlight_def step_AskPromise)
next
  case (Response err resp)
  show ?thesis
  proof (cases "pendingGets s = 0")
    case True
    with assms Response show ?thesis by (simp add: step_Response_none)
  next
    case False
    then have pos: "0 < pendingGets s" by simp
    note one = single_loop_request [OF assms(3) pos]
    from step_Response [OF assms(1) pos, of d err resp] Response one show ?thesis
      by (auto simp: single_loop_def inFlight_def)
  qed
next
  case TimerFires
  show ?thesis
  proof (cases "timers s")
    case Nil
    with assms TimerFires show ?thesis by (simp add: step_TimerFires_none)
  next
    case (Cons t ts)
    note one = single_loop_timer [OF assms(3) Cons]
    from step_TimerFires [OF Cons, of d] TimerFires Cons one show ?thesis
      by (auto simp: single_loop_def inFlight_def)
  qed
qed

lemma run_single_loop:
  assumes "wellformed s" "\<not> list_ex is_unsubscribe acts" "single_loop s"
  shows "single_loop (run d s acts)"
  using assms
proof (induction acts arbitrary: s)
  case Nil
  then show ?case by simp
next
  case (Cons a acts)
  from Cons.prems have "single_loop (step d s a)" by (intro step_single_loop) simp_all
  moreover from Cons.prems have "wellformed (step d s a)" by (intro wellformed_step)
  ultimately show ?case using Cons.IH Cons.prems(2) by simp
qed

lemma single_loop_Operation: "single_loop (Operation par nm)"
  by (simp add: single_loop_def inFlight_def Operation_fresh)

lemma settled_Operation: "settled (Operation par nm)"
  by (simp add: settled_def single_loop_Operation Operation_fresh inFlight_def)

lemma no_terminal_dropWhile:
  "\<not> list_ex is_terminal xs \<Longrightarrow> dropWhile (\<lambda>e. \<not> is_terminal e) (xs @ ys) = dropWhile (\<lambda>e. \<not> is_terminal e) ys"
  by (simp add: list_ex_iff dropWhile_append2)

lemma step_settled:
  assumes "wellformed s" "hasActiveListeners s \<longrightarrow> hasActiveListeners (step d s a)" "settled s"
  shows "settled (step d s a)"
proof (cases a)
  case (Subscribe ev n)
  with assms(1,3) show ?thesis
    by (auto simp: settled_def single_loop_def inFlight_def step_Subscribe)
next
  case (Unsubscribe ev n)
  from step_Unsubscribe [OF assms(1), of d ev n] assms(2,3) Unsubscribe show ?thesis
    by (auto simp: settled_def single_loop_def inFlight_def)
next
  case AskPromise
  with assms(1,3) show ?thesis
    by (auto simp: settled_def single_loop_def inFlight_def step_AskPromise)
next
  case (Response err resp)
  show ?thesis
  proof (cases "pendingGets s = 0")
    case True
    with assms Response show ?thesis by (simp add: step_Response_none)
  next
    case False
    then have pos: "0 < pendingGets s" by simp
    from assms(3) have sl: "single_loop s" by (simp add: settled_def)
    note one = single_loop_request [OF sl pos]
    from assms(3) pos have nt: "\<not> list_ex is_terminal (marks s)"
      by (auto simp: settled_def inFlight_def)
    from step_Response [OF assms(1) pos, of d err resp] assms(3) Response nt one
    show ?thesis
      by (auto simp: settled_def single_loop_def inFlight_def no_terminal_dropWhile)
  qed
next
  case TimerFires
  show ?thesis
  proof (cases "timers s")
    case Nil
    with assms TimerFires show ?thesis by (simp add: step_TimerFires_none)
  next
    case (Cons t ts)
    from assms(3) have sl: "single_loop s" by (simp add: settled_def)
    note one = single_loop_timer [OF sl Cons]
    from assms(3) Cons have nt: "\<not> list_ex is_terminal (marks s)"
      by (auto simp: settled_def inFlight_def)
    from step_TimerFires [OF Cons, of d] assms(3) TimerFires Cons nt one show ?thesis
      by (auto simp: settled_def single_loop_def inFlight_def no_terminal_dropWhile)
  qed
qed

lemma run_settled:
  assumes "wellformed s" "stays_active d s acts" "settled s"
  shows "settled (run d s acts)"
  using assms
proof (induction acts arbitrary: s)
  case Nil
  then show ?case by simp
next
  case (Cons a acts)
  from Cons.prems have "settled (step d s a)" by (intro step_settled) simp_all
  moreover from Cons.prems have "wellformed (step d s a)" by (intro wellformed_step)
  ultimately show ?case using Cons.IH Cons.prems(2) by simp
qed

section \<open>Promises\<close>

text \<open>
  The closures of a promise are the only listeners that settle it, and each settles it at
  most once. In every reachable state they are registered for every promise handed out.
\<close>

lemma settle_length: "length (promises (settle p v s)) = length (promises s)"
  by (simp add: settle_def)

lemma invoke_promises_length:
  "user_listener l \<Longrightarrow> length (promises (invoke l args s)) = length (promises s)"
  by (cases l) (simp_all add: settle_length record_effect_def)































section \<open>Restarting and staying alive\<close>

text \<open>
  The trace only grows. A poll loop starts when a \<^verbatim>\<open>complete\<close> listener registers while
  none is active; as long as that happens only while nothing is in flight, one loop is in
  flight at most, and a loop ends only by a terminal event, by an exception in the
  callback, or at the start of a cycle that finds no active listener.
\<close>

lemma terminal_marks: "list_ex is_terminal (marks s) = list_ex is_terminal (trace s)"
  by (auto simp: marks_def list_ex_iff)














lemma one_request:
  assumes "inFlight s \<le> 1" "0 < pendingGets s"
  shows "pendingGets s = 1" and "timers s = []"
proof -
  from assms have le: "pendingGets s + length (timers s) \<le> 1" by (simp add: inFlight_def)
  with assms(2) show "pendingGets s = 1" by arith
  from le assms(2) have "length (timers s) = 0" by arith
  then show "timers s = []" by simp
qed

lemma one_timer:
  assumes "inFlight s \<le> 1" "timers s = t # ts"
  shows "pendingGets s = 0" and "ts = []"
proof -
  from assms have le: "pendingGets s + Suc (length ts) \<le> 1" by (simp add: inFlight_def)
  then show "pendingGets s = 0" by arith
  from le have "length ts = 0" by arith
  then show "ts = []" by simp
qed

lemma step_bounded:
  assumes "wellformed s" "subscribes_complete a \<and> \<not> hasActiveListeners s \<longrightarrow> inFlight s = 0"
    "inFlight s \<le> 1"
  shows "inFlight (step d s a) \<le> 1"
proof (cases a)
  case (Subscribe ev n)
  with assms show ?thesis by (auto simp: inFlight_def step_Subscribe)
next
  case (Unsubscribe ev n)
  with assms(3) step_Unsubscribe [OF assms(1), of d ev n] show ?thesis by (simp add: inFlight_def)
next
  case AskPromise
  with assms show ?thesis by (auto simp: inFlight_def step_AskPromise)
next
  case (Response err resp)
  show ?thesis
  proof (cases "pendingGets s = 0")
    case True
    with assms Response show ?thesis by (simp add: step_Response_none)
  next
    case False
    then have pos: "0 < pendingGets s" by simp
    note one = one_request [OF assms(3) pos]
    from step_Response [OF assms(1) pos, of d err resp] Response one show ?thesis
      by (auto simp: inFlight_def)
  qed
next
  case TimerFires
  show ?thesis
  proof (cases "timers s")
    case Nil
    with assms TimerFires show ?thesis by (simp add: step_TimerFires_none)
  next
    case (Cons t ts)
    note one = one_timer [OF assms(3) Cons]
    from step_TimerFires [OF Cons, of d] TimerFires Cons one show ?thesis
      by (auto simp: inFlight_def)
  qed
qed

lemma run_bounded:
  assumes "wellformed s" "starts_idle d s acts" "inFlight s \<le> 1"
  shows "inFlight (run d s acts) \<le> 1"
  using assms
proof (induction acts arbitrary: s)
  case Nil
  then show ?case by simp
next
  case (Cons a acts)
  from Cons.prems have "inFlight (step d s a) \<le> 1" by (intro step_bounded) simp_all
  moreover from Cons.prems have "wellformed (step d s a)" by (intro wellformed_step)
  ultimately show ?case using Cons.IH Cons.prems(2) by simp
qed

lemma step_calm:
  assumes "wellformed s"
    "subscribes_complete a \<and> \<not> hasActiveListeners s \<longrightarrow>
       inFlight s = 0 \<and> \<not> list_ex is_terminal (trace s)"
    "calm s"
  shows "calm (step d s a)"
proof (cases a)
  case (Subscribe ev n)
  with assms show ?thesis
    by (auto simp: calm_def inFlight_def step_Subscribe terminal_marks [symmetric]
        no_terminal_dropWhile)
next
  case (Unsubscribe ev n)
  from step_Unsubscribe [OF assms(1), of d ev n] assms(3) Unsubscribe show ?thesis
    by (simp add: calm_def inFlight_def)
next
  case AskPromise
  with assms show ?thesis
    by (auto simp: calm_def inFlight_def step_AskPromise terminal_marks [symmetric]
        no_terminal_dropWhile)
next
  case (Response err resp)
  show ?thesis
  proof (cases "pendingGets s = 0")
    case True
    with assms Response show ?thesis by (simp add: step_Response_none)
  next
    case False
    then have pos: "0 < pendingGets s" by simp
    from assms(3) have le: "inFlight s \<le> 1" by (simp add: calm_def)
    note one = one_request [OF le pos]
    from assms(3) pos have nt: "\<not> list_ex is_terminal (marks s)"
      by (auto simp: calm_def inFlight_def)
    from step_Response [OF assms(1) pos, of d err resp] assms(3) Response nt one
    show ?thesis
      by (auto simp: calm_def inFlight_def no_terminal_dropWhile)
  qed
next
  case TimerFires
  show ?thesis
  proof (cases "timers s")
    case Nil
    with assms TimerFires show ?thesis by (simp add: step_TimerFires_none)
  next
    case (Cons t ts)
    from assms(3) have le: "inFlight s \<le> 1" by (simp add: calm_def)
    note one = one_timer [OF le Cons]
    from assms(3) Cons have nt: "\<not> list_ex is_terminal (marks s)"
      by (auto simp: calm_def inFlight_def)
    from step_TimerFires [OF Cons, of d] assms(3) TimerFires Cons nt one show ?thesis
      by (auto simp: calm_def inFlight_def no_terminal_dropWhile)
  qed
qed

lemma run_calm:
  assumes "wellformed s" "starts_fresh d s acts" "calm s"
  shows "calm (run d s acts)"
  using assms
proof (induction acts arbitrary: s)
  case Nil
  then show ?case by simp
next
  case (Cons a acts)
  from Cons.prems have "calm (step d s a)" by (intro step_calm) simp_all
  moreover from Cons.prems have "wellformed (step d s a)" by (intro wellformed_step)
  ultimately show ?case using Cons.IH Cons.prems(2) by simp
qed

lemma calm_Operation: "calm (Operation par nm)"
  by (simp add: calm_def inFlight_def Operation_fresh)

lemma starts_fresh_append:
  "starts_fresh d s (xs @ ys) = (starts_fresh d s xs \<and> starts_fresh d (run d s xs) ys)"
  by (induction xs arbitrary: s) auto

lemma starts_fresh_no_subscription:
  "\<not> list_ex subscribes_complete acts \<Longrightarrow> starts_fresh d s acts"
  by (induction acts arbitrary: s) auto

lemma stays_active_starts_fresh:
  assumes "wellformed s" "settled s" "stays_active d s acts"
  shows "starts_fresh d s acts"
  using assms
proof (induction acts arbitrary: s)
  case Nil
  show ?case by simp
next
  case (Cons a acts)
  from Cons.prems(2) have "\<not> hasActiveListeners s \<longrightarrow> inFlight s = 0 \<and> \<not> list_ex is_terminal (trace s)"
    by (auto simp: settled_def single_loop_def terminal_marks [symmetric])
  moreover from Cons.prems have "settled (step d s a)" by (intro step_settled) simp_all
  moreover from Cons.prems have "wellformed (step d s a)" by (intro wellformed_step)
  ultimately show ?case using Cons.IH Cons.prems(3) by simp
qed

lemma name_step:
  assumes "wellformed s"
  shows "name (step d s a) = name s"
proof (cases a)
  case (Subscribe ev n)
  then show ?thesis by (simp add: step_Subscribe [OF assms])
next
  case (Unsubscribe ev n)
  then show ?thesis by (simp add: step_Unsubscribe [OF assms])
next
  case AskPromise
  then show ?thesis by (simp add: step_AskPromise [OF assms])
next
  case (Response err resp)
  then show ?thesis
    by (cases "pendingGets s = 0") (simp_all add: step_Response_none step_Response [OF assms])
next
  case TimerFires
  then show ?thesis
    by (cases "timers s") (simp_all add: step_TimerFires_none step_TimerFires)
qed

lemma name_run: "wellformed s \<Longrightarrow> name (run d s acts) = name s"
  by (induction acts arbitrary: s) (simp_all add: name_step wellformed_step)





section \<open>The operation factory\<close>

text \<open>
  C9: for every falsy name (\<^verbatim>\<open>undefined\<close>, the empty string, ...) the factory
  \<^verbatim>\<open>Functions.prototype.operation\<close> throws at once: its result is the error and no
  handle exists on which an event could be delivered. For every truthy name it returns the
  freshly constructed handle, which carries that name and has neither issued a request
  nor emitted a terminal event.
\<close>

theorem operation_requires_name:
  "(\<not> truthy nm \<longrightarrow>
      operation this nm = Inl (Error ''A name must be specified for an operation.''))
   \<and> (truthy nm \<longrightarrow>
      operation this nm = Inr (Operation this nm)
      \<and> name (Operation this nm) = nm
      \<and> filter is_terminal (trace (Operation this nm)) = []
      \<and> fetches (Operation this nm) = [])"
  by (simp add: operation_def Operation_def listenForEvents_def on_def emit_def
      listenersOf_def record_effect_def fetches_def Let_def)

theorem operation_requires_name_witness:
  "\<not> truthy Undefined \<and> \<not> truthy (JStr '''')
   \<and> operation \<lparr>projectId = JStr ''p'', region = Undefined\<rparr> Undefined
       = Inl (Error ''A name must be specified for an operation.'')
   \<and> operation \<lparr>projectId = JStr ''p'', region = Undefined\<rparr> (JStr '''')
       = Inl (Error ''A name must be specified for an operation.'')
   \<and> truthy (JStr ''68850831366825'')
   \<and> operation \<lparr>projectId = JStr ''p'', region = Undefined\<rparr> (JStr ''68850831366825'')
       = Inr (Operation \<lparr>projectId = JStr ''p'', region = Undefined\<rparr> (JStr ''68850831366825''))"
  using operation_requires_name [of Undefined "\<lparr>projectId = JStr ''p'', region = Undefined\<rparr>"]
    operation_requires_name [of "JStr ''''" "\<lparr>projectId = JStr ''p'', region = Undefined\<rparr>"]
    operation_requires_name [of "JStr ''68850831366825''" "\<lparr>projectId = JStr ''p'', region = Undefined\<rparr>"]
  by simp


section \<open>Formatting a function name\<close>

text \<open>
  C10: a name that contains a slash is returned unchanged, and formatting twice is the
  same as formatting once (an exception of the path renderer on the first call
  propagates), for every path renderer whose results contain a slash, as the documented
  format \<^verbatim>\<open>projects/{projectId}/locations/{region}/functions/{name}\<close> does.
\<close>

theorem formatName_idempotent:
  assumes slash: "\<And>p r n s. functionPath p r n = Inr s \<Longrightarrow> CHR ''/'' \<in> set s"
  shows "(CHR ''/'' \<in> set nm \<longrightarrow> formatName functionPath this pid reg nm = Inr nm)
       \<and> (case formatName functionPath this pid reg nm of
             Inl e \<Rightarrow> Inl e
           | Inr s \<Rightarrow> formatName functionPath this pid reg s)
          = formatName functionPath this pid reg nm"
proof (intro conjI impI)
  assume "CHR ''/'' \<in> set nm"
  then show "formatName functionPath this pid reg nm = Inr nm"
    by (simp add: formatName_def indexOf_found)
next
  show "(case formatName functionPath this pid reg nm of
             Inl e \<Rightarrow> Inl e
           | Inr s \<Rightarrow> formatName functionPath this pid reg s)
          = formatName functionPath this pid reg nm"
  proof (cases "formatName functionPath this pid reg nm")
    case (Inl e)
    then show ?thesis by simp
  next
    case (Inr s)
    have "CHR ''/'' \<in> set s"
    proof (cases "CHR ''/'' \<in> set nm")
      case True
      with Inr show ?thesis by (simp add: formatName_def indexOf_found)
    next
      case False
      with Inr have "functionPath (js_or pid (projectId this)) (js_or reg (region this)) nm = Inr s"
        by (simp add: formatName_def indexOf_found)
      then show ?thesis by (rule slash)
    qed
    then have "formatName functionPath this pid reg s = Inr s"
      by (simp add: formatName_def indexOf_found)
    with Inr show ?thesis by simp
  qed
qed

theorem formatName_idempotent_witness:
  "formatName functionPath_documented \<lparr>projectId = JStr ''proj'', region = JStr ''us-central1''\<rparr>
        Undefined (JStr '''') ''fn''
      = Inr ''projects/proj/locations/us-central1/functions/fn''
   \<and> (case formatName functionPath_documented
             \<lparr>projectId = JStr ''proj'', region = JStr ''us-central1''\<rparr> Undefined (JStr '''') ''fn'' of
         Inl e \<Rightarrow> Inl e
       | Inr s \<Rightarrow> formatName functionPath_documented
             \<lparr>projectId = JStr ''proj'', region = JStr ''us-central1''\<rparr> Undefined (JStr '''') s)
      = Inr ''projects/proj/locations/us-central1/functions/fn''"
  using formatName_idempotent [of functionPath_documented "''fn''"
      "\<lparr>projectId = JStr ''proj'', region = JStr ''us-central1''\<rparr>" Undefined "JStr ''''",
      OF functionPath_documented_slash]
  by (auto simp: functionPath_documented_slash formatName_def js_or_def functionPath_documented_def)


section \<open>One poll cycle\<close>







text \<open>
  C5: an error-free answer with a falsy \<^verbatim>\<open>done\<close> sets exactly one timer, of 500 units,
  and does nothing else; when a timer fires while listeners are active, exactly one request
  is issued. An error-free answer with a truthy \<^verbatim>\<open>done\<close> emits \<^verbatim>\<open>complete\<close> exactly
  once, carrying the response itself, and sets no timer. In the run where a caller
  subscribes, the first answer is \<^verbatim>\<open>{done: false}\<close>, the timer fires and the second answer
  is \<^verbatim>\<open>{done: true, response: {value: X}}\<close>, exactly two requests are issued and
  \<^verbatim>\<open>complete\<close> is emitted once, with that second response, to the subscriber.
\<close>

theorem fixed_interval_poll:
  "(0 < pendingGets s \<and> \<not> truthy err \<and> js_prop resp ''error'' = Inr er \<and> \<not> truthy er
      \<and> js_prop resp ''done'' = Inr dn \<and> \<not> truthy dn \<longrightarrow>
        trace (step d s (Response err resp)) = trace s @ [SetTimeout 500]
      \<and> timers (step d s (Response err resp)) = timers s @ [500]
      \<and> pendingGets (step d s (Response err resp)) = pendingGets s - 1)
   \<and> (hasActiveListeners s \<and> timers s = t # ts \<longrightarrow>
        trace (step d s TimerFires) = trace s @ [GetOperation (JObj [(''name'', name s)])]
      \<and> timers (step d s TimerFires) = ts
      \<and> pendingGets (step d s TimerFires) = Suc (pendingGets s))
   \<and> (0 < pendingGets s \<and> \<not> truthy err \<and> js_prop resp ''error'' = Inr er \<and> \<not> truthy er
      \<and> js_prop resp ''done'' = Inr dn \<and> truthy dn \<longrightarrow>
        emitted ''complete'' (step d s (Response err resp)) = emitted ''complete'' s @ [[resp]]
      \<and> emitted ''error'' (step d s (Response err resp)) = emitted ''error'' s
      \<and> timers (step d s (Response err resp)) = timers s)
   \<and> fetches (run d (Operation par nm)
        [Subscribe ''complete'' h,
         Response Null (JObj [(''done'', JBool False)]),
         TimerFires,
         Response Null (JObj [(''done'', JBool True), (''response'', JObj [(''value'', X)])])])
      = [GetOperation (JObj [(''name'', nm)]), GetOperation (JObj [(''name'', nm)])]
   \<and> emitted ''complete'' (run d (Operation par nm)
        [Subscribe ''complete'' h,
         Response Null (JObj [(''done'', JBool False)]),
         TimerFires,
         Response Null (JObj [(''done'', JBool True), (''response'', JObj [(''value'', X)])])])
      = [[JObj [(''done'', JBool True), (''response'', JObj [(''value'', X)])]]]
   \<and> filter (\<lambda>e. case e of Invoke n args \<Rightarrow> True | _ \<Rightarrow> False) (trace (run d (Operation par nm)
        [Subscribe ''complete'' h,
         Response Null (JObj [(''done'', JBool False)]),
         TimerFires,
         Response Null (JObj [(''done'', JBool True), (''response'', JObj [(''value'', X)])])]))
      = [Invoke h [JObj [(''done'', JBool True), (''response'', JObj [(''value'', X)])]]]
   \<and> (case js_prop (JObj [(''done'', JBool True), (''response'', JObj [(''value'', X)])]) ''response'' of
         Inl e \<Rightarrow> Inl e
       | Inr r \<Rightarrow> js_prop r ''value'') = Inr X"
proof (intro conjI impI)
  show "fetches (run d (Operation par nm)
        [Subscribe ''complete'' h,
         Response Null (JObj [(''done'', JBool False)]),
         TimerFires,
         Response Null (JObj [(''done'', JBool True), (''response'', JObj [(''value'', X)])])])
      = [GetOperation (JObj [(''name'', nm)]), GetOperation (JObj [(''name'', nm)])]"
    by code_simp
  show "emitted ''complete'' (run d (Operation par nm)
        [Subscribe ''complete'' h,
         Response Null (JObj [(''done'', JBool False)]),
         TimerFires,
         Response Null (JObj [(''done'', JBool True), (''response'', JObj [(''value'', X)])])])
      = [[JObj [(''done'', JBool True), (''response'', JObj [(''value'', X)])]]]"
    by code_simp
  show "filter (\<lambda>e. case e of Invoke n args \<Rightarrow> True | _ \<Rightarrow> False) (trace (run d (Operation par nm)
        [Subscribe ''complete'' h,
         Response Null (JObj [(''done'', JBool False)]),
         TimerFires,
         Response Null (JObj [(''done'', JBool True), (''response'', JObj [(''value'', X)])])]))
      = [Invoke h [JObj [(''done'', JBool True), (''response'', JObj [(''value'', X)])]]]"
    by code_simp
  show "(case js_prop (JObj [(''done'', JBool True), (''response'', JObj [(''value'', X)])]) ''response'' of
         Inl e \<Rightarrow> Inl e
       | Inr r \<Rightarrow> js_prop r ''value'') = Inr X" by simp
qed (simp_all add: step_def pollCallback_def schedulePoll_def record_effect_def startPolling_def
      get_def emitted_emit timers_emit, simp_all add: emitted_def)

theorem fixed_interval_poll_witness:
  "0 < pendingGets (run id (Operation \<lparr>projectId = JStr ''p'', region = Undefined\<rparr> (JStr ''op''))
          [Subscribe ''complete'' 1])
   \<and> hasActiveListeners (run id (Operation \<lparr>projectId = JStr ''p'', region = Undefined\<rparr> (JStr ''op''))
          [Subscribe ''complete'' 1, Response Null (JObj [(''done'', JBool False)])])
   \<and> timers (step id (run id (Operation \<lparr>projectId = JStr ''p'', region = Undefined\<rparr> (JStr ''op''))
          [Subscribe ''complete'' 1]) (Response Null (JObj [(''done'', JBool False)]))) = [500]
   \<and> timers (step id (run id (Operation \<lparr>projectId = JStr ''p'', region = Undefined\<rparr> (JStr ''op''))
          [Subscribe ''complete'' 1, Response Null (JObj [(''done'', JBool False)])]) TimerFires) = []
   \<and> pendingGets (step id (run id (Operation \<lparr>projectId = JStr ''p'', region = Undefined\<rparr> (JStr ''op''))
          [Subscribe ''complete'' 1, Response Null (JObj [(''done'', JBool False)])]) TimerFires) = 1
   \<and> emitted ''complete'' (step id (run id (Operation \<lparr>projectId = JStr ''p'', region = Undefined\<rparr> (JStr ''op''))
          [Subscribe ''complete'' 1]) (Response Null (JObj [(''done'', JBool True)])))
       = [[JObj [(''done'', JBool True)]]]"
proof -
  let ?s0 = "run id (Operation \<lparr>projectId = JStr ''p'', region = Undefined\<rparr> (JStr ''op''))
          [Subscribe ''complete'' 1]"
  let ?s1 = "run id (Operation \<lparr>projectId = JStr ''p'', region = Undefined\<rparr> (JStr ''op''))
          [Subscribe ''complete'' 1, Response Null (JObj [(''done'', JBool False)])]"
  have s0: "0 < pendingGets ?s0" "timers ?s0 = []" "emitted ''complete'' ?s0 = []"
    by code_simp+
  have s1: "hasActiveListeners ?s1" "timers ?s1 = [500]" "pendingGets ?s1 = 0"
    by code_simp+
  have f: "js_prop (JObj [(''done'', JBool False)]) ''error'' = Inr Undefined"
    "js_prop (JObj [(''done'', JBool False)]) ''done'' = Inr (JBool False)"
    "js_prop (JObj [(''done'', JBool True)]) ''error'' = Inr Undefined"
    "js_prop (JObj [(''done'', JBool True)]) ''done'' = Inr (JBool True)"
    by simp_all
  from fixed_interval_poll [where s = ?s0 and err = Null and d = id
      and resp = "JObj [(''done'', JBool False)]" and er = Undefined and dn = "JBool False"]
    s0 f
  have a: "timers (step id ?s0 (Response Null (JObj [(''done'', JBool False)]))) = [500]"
    by simp
  from fixed_interval_poll [where s = ?s1 and d = id and t = 500 and ts = "[]"] s1
  have b: "timers (step id ?s1 TimerFires) = []" "pendingGets (step id ?s1 TimerFires) = 1"
    by simp_all
  from fixed_interval_poll [where s = ?s0 and err = Null and d = id
      and resp = "JObj [(''done'', JBool True)]" and er = Undefined and dn = "JBool True"]
    s0 f
  have c: "emitted ''complete'' (step id ?s0 (Response Null (JObj [(''done'', JBool True)])))
       = [[JObj [(''done'', JBool True)]]]"
    by simp
  from s0 s1 a b c show ?thesis by simp
qed


section \<open>Listener accounting and the poll loop\<close>




text \<open>
  C6: in every execution that consists of subscriptions (of any event, or through a
  promise), answers and timers, at most one poll loop is in flight at any time; the same
  holds with unsubscriptions, as long as none removes the last \<^verbatim>\<open>complete\<close> listener. In
  any reachable state with active listeners, one more \<^verbatim>\<open>complete\<close> subscriber increments
  the counter and neither issues a request nor adds a loop.
\<close>

theorem single_poll_loop:
  "(\<not> list_ex is_unsubscribe acts \<longrightarrow> inFlight (run d (Operation par nm) acts) \<le> 1)
   \<and> (stays_active d (Operation par nm) acts \<longrightarrow> inFlight (run d (Operation par nm) acts) \<le> 1)
   \<and> (hasActiveListeners (run d (Operation par nm) acts') \<longrightarrow>
        completeListeners (step d (run d (Operation par nm) acts') (Subscribe ''complete'' h))
          = completeListeners (run d (Operation par nm) acts') + 1
      \<and> inFlight (step d (run d (Operation par nm) acts') (Subscribe ''complete'' h))
          = inFlight (run d (Operation par nm) acts')
      \<and> fetches (step d (run d (Operation par nm) acts') (Subscribe ''complete'' h))
          = fetches (run d (Operation par nm) acts'))"
proof (intro conjI impI)
  assume "\<not> list_ex is_unsubscribe acts"
  from run_single_loop [OF Operation_fresh(1) this single_loop_Operation, of d par nm]
  show "inFlight (run d (Operation par nm) acts) \<le> 1" by (simp add: single_loop_def)
next
  assume "stays_active d (Operation par nm) acts"
  from run_settled [OF Operation_fresh(1) this settled_Operation]
  show "inFlight (run d (Operation par nm) acts) \<le> 1" by (simp add: settled_def single_loop_def)
next
  let ?s = "run d (Operation par nm) acts'"
  assume act: "hasActiveListeners ?s"
  have w: "wellformed ?s" by (simp add: wellformed_run Operation_fresh)
  from act show "completeListeners (step d ?s (Subscribe ''complete'' h)) = completeListeners ?s + 1"
    by (simp add: step_Subscribe [OF w])
  from act show "inFlight (step d ?s (Subscribe ''complete'' h)) = inFlight ?s"
    by (simp add: step_Subscribe [OF w] inFlight_def)
  from act show "fetches (step d ?s (Subscribe ''complete'' h)) = fetches ?s"
    by (simp add: step_Subscribe [OF w] fetches_marks)
qed

theorem single_poll_loop_witness:
  "\<not> list_ex is_unsubscribe
        [Subscribe ''complete'' 1, Subscribe ''complete'' 2,
         Response Null (JObj [(''done'', JBool False)]), TimerFires]
   \<and> inFlight (run id (Operation \<lparr>projectId = JStr ''p'', region = Undefined\<rparr> (JStr ''op''))
        [Subscribe ''complete'' 1, Subscribe ''complete'' 2,
         Response Null (JObj [(''done'', JBool False)]), TimerFires]) \<le> 1
   \<and> hasActiveListeners (run id (Operation \<lparr>projectId = JStr ''p'', region = Undefined\<rparr> (JStr ''op''))
        [Subscribe ''complete'' 1])
   \<and> completeListeners (step id (run id (Operation \<lparr>projectId = JStr ''p'', region = Undefined\<rparr> (JStr ''op''))
        [Subscribe ''complete'' 1]) (Subscribe ''complete'' 2)) = 2
   \<and> fetches (step id (run id (Operation \<lparr>projectId = JStr ''p'', region = Undefined\<rparr> (JStr ''op''))
        [Subscribe ''complete'' 1]) (Subscribe ''complete'' 2))
      = [GetOperation (JObj [(''name'', JStr ''op'')])]"
proof -
  let ?acts = "[Subscribe ''complete'' 1, Subscribe ''complete'' 2,
         Response Null (JObj [(''done'', JBool False)]), TimerFires]"
  let ?s = "run id (Operation \<lparr>projectId = JStr ''p'', region = Undefined\<rparr> (JStr ''op''))
        [Subscribe ''complete'' 1]"
  have h: "\<not> list_ex is_unsubscribe ?acts" by simp
  have a: "hasActiveListeners ?s" by code_simp
  have c: "completeListeners ?s = 1" by code_simp
  have f: "fetches ?s = [GetOperation (JObj [(''name'', JStr ''op'')])]" by code_simp
  note t = single_poll_loop [of ?acts id "\<lparr>projectId = JStr ''p'', region = Undefined\<rparr>"
      "JStr ''op''" "[Subscribe ''complete'' 1]" 2]
  from t h have 1: "inFlight (run id (Operation \<lparr>projectId = JStr ''p'', region = Undefined\<rparr> (JStr ''op''))
        ?acts) \<le> 1" by blast
  from t a have 2: "completeListeners (step id ?s (Subscribe ''complete'' 2)) = completeListeners ?s + 1"
    and 3: "fetches (step id ?s (Subscribe ''complete'' 2)) = fetches ?s" by blast+
  from h a 1 2 3 c f show ?thesis by simp
qed

text \<open>
  C3 (as amended): when an unsubscription leaves the Operation without active listeners,
  then, for as long as no \<^verbatim>\<open>complete\<close> listener registers again, no further request is
  issued at all: the requests and timers pending at that moment run out, their number
  never grows, and \<^verbatim>\<open>startPolling_\<close> returns without a request because it finds no
  active listener. At most one request or timer is pending then, provided that no
  \<^verbatim>\<open>complete\<close> listener has ever registered, with none active, while something was in
  flight.
\<close>

theorem no_fetch_after_last_unsubscribe:
  assumes "\<not> hasActiveListeners (run d (Operation par nm) (acts1 @ [Unsubscribe ''complete'' h]))"
    and "\<not> list_ex subscribes_complete acts2"
  shows "fetches (run d (Operation par nm) (acts1 @ [Unsubscribe ''complete'' h] @ acts2))
           = fetches (run d (Operation par nm) acts1)
       \<and> \<not> hasActiveListeners (run d (Operation par nm) (acts1 @ [Unsubscribe ''complete'' h] @ acts2))
       \<and> inFlight (run d (Operation par nm) (acts1 @ [Unsubscribe ''complete'' h] @ acts2))
           \<le> inFlight (run d (Operation par nm) acts1)
       \<and> startPolling (run d (Operation par nm) (acts1 @ [Unsubscribe ''complete'' h] @ acts2))
           = run d (Operation par nm) (acts1 @ [Unsubscribe ''complete'' h] @ acts2)
       \<and> (starts_idle d (Operation par nm) acts1 \<longrightarrow>
            inFlight (run d (Operation par nm) (acts1 @ [Unsubscribe ''complete'' h] @ acts2)) \<le> 1)"
proof -
  let ?s1 = "run d (Operation par nm) acts1"
  let ?s2 = "run d (Operation par nm) (acts1 @ [Unsubscribe ''complete'' h])"
  let ?s3 = "run d (Operation par nm) (acts1 @ [Unsubscribe ''complete'' h] @ acts2)"
  have w1: "wellformed ?s1" by (simp add: wellformed_run Operation_fresh)
  have s2: "?s2 = step d ?s1 (Unsubscribe ''complete'' h)" by (simp add: run_append)
  have w2: "wellformed ?s2" by (simp add: wellformed_run Operation_fresh)
  have s3: "?s3 = run d ?s2 acts2" by (simp add: run_append)
  from step_Unsubscribe [OF w1, of d "''complete''" h]
  have u: "fetches ?s2 = fetches ?s1" "inFlight ?s2 = inFlight ?s1"
    by (simp_all add: s2 fetches_marks inFlight_def)
  from run_idle [OF w2 assms(1) assms(2), of d] u
  have r: "\<not> hasActiveListeners ?s3 \<and> fetches ?s3 = fetches ?s1 \<and> inFlight ?s3 \<le> inFlight ?s1"
    unfolding s3 by simp
  have "starts_idle d (Operation par nm) acts1 \<longrightarrow> inFlight ?s3 \<le> 1"
  proof
    assume "starts_idle d (Operation par nm) acts1"
    from run_bounded [OF Operation_fresh(1) this]
    have "inFlight ?s1 \<le> 1" by (simp add: inFlight_def Operation_fresh)
    with r show "inFlight ?s3 \<le> 1" by simp
  qed
  with r show ?thesis by (simp add: startPolling_def)
qed

theorem no_fetch_after_last_unsubscribe_witness:
  "\<not> hasActiveListeners (run id (Operation \<lparr>projectId = JStr ''p'', region = Undefined\<rparr> (JStr ''op''))
        ([Subscribe ''complete'' 1] @ [Unsubscribe ''complete'' 1]))
   \<and> \<not> list_ex subscribes_complete
        [Response Null (JObj [(''done'', JBool False)]), TimerFires, Subscribe ''error'' 0]
   \<and> starts_idle id (Operation \<lparr>projectId = JStr ''p'', region = Undefined\<rparr> (JStr ''op''))
        [Subscribe ''complete'' 1]
   \<and> fetches (run id (Operation \<lparr>projectId = JStr ''p'', region = Undefined\<rparr> (JStr ''op''))
        ([Subscribe ''complete'' 1] @ [Unsubscribe ''complete'' 1]
          @ [Response Null (JObj [(''done'', JBool False)]), TimerFires, Subscribe ''error'' 0]))
      = [GetOperation (JObj [(''name'', JStr ''op'')])]
   \<and> inFlight (run id (Operation \<lparr>projectId = JStr ''p'', region = Undefined\<rparr> (JStr ''op''))
        ([Subscribe ''complete'' 1] @ [Unsubscribe ''complete'' 1]
          @ [Response Null (JObj [(''done'', JBool False)]), TimerFires, Subscribe ''error'' 0]))
      \<le> 1"
proof -
  let ?o = "Operation \<lparr>projectId = JStr ''p'', region = Undefined\<rparr> (JStr ''op'')"
  let ?acts2 = "[Response Null (JObj [(''done'', JBool False)]), TimerFires, Subscribe ''error'' 0]"
  have h1: "\<not> hasActiveListeners (run id ?o ([Subscribe ''complete'' 1] @ [Unsubscribe ''complete'' 1]))"
    by code_simp
  have h2: "\<not> list_ex subscribes_complete ?acts2" by simp
  have h3: "starts_idle id ?o [Subscribe ''complete'' 1]" by code_simp
  have f: "fetches (run id ?o [Subscribe ''complete'' 1]) = [GetOperation (JObj [(''name'', JStr ''op'')])]"
    by code_simp
  from no_fetch_after_last_unsubscribe [OF h1 h2] h3
  have "fetches (run id ?o ([Subscribe ''complete'' 1] @ [Unsubscribe ''complete'' 1] @ ?acts2))
          = fetches (run id ?o [Subscribe ''complete'' 1])"
    and "inFlight (run id ?o ([Subscribe ''complete'' 1] @ [Unsubscribe ''complete'' 1] @ ?acts2)) \<le> 1"
    by blast+
  with h1 h2 h3 f show ?thesis by simp
qed

text \<open>
  C3 as stated fails in its bound: after subscribe, unsubscribe, subscribe, unsubscribe,
  two requests are in flight behind the last unsubscription, with no terminal event; both
  answer after it, and each answer sets a timer.
\<close>

theorem two_in_flight_counterexample:
  "\<not> hasActiveListeners (run id (Operation \<lparr>projectId = JStr ''p'', region = Undefined\<rparr> (JStr ''op''))
        ([Subscribe ''complete'' 1, Unsubscribe ''complete'' 1, Subscribe ''complete'' 1]
         @ [Unsubscribe ''complete'' 1]))
   \<and> filter is_terminal (trace (run id (Operation \<lparr>projectId = JStr ''p'', region = Undefined\<rparr> (JStr ''op''))
        ([Subscribe ''complete'' 1, Unsubscribe ''complete'' 1, Subscribe ''complete'' 1]
         @ [Unsubscribe ''complete'' 1]))) = []
   \<and> pendingGets (run id (Operation \<lparr>projectId = JStr ''p'', region = Undefined\<rparr> (JStr ''op''))
        ([Subscribe ''complete'' 1, Unsubscribe ''complete'' 1, Subscribe ''complete'' 1]
         @ [Unsubscribe ''complete'' 1])) = 2
   \<and> trace (run id (Operation \<lparr>projectId = JStr ''p'', region = Undefined\<rparr> (JStr ''op''))
        ([Subscribe ''complete'' 1, Unsubscribe ''complete'' 1, Subscribe ''complete'' 1]
         @ [Unsubscribe ''complete'' 1]
         @ [Response Null (JObj [(''done'', JBool False)]),
            Response Null (JObj [(''done'', JBool False)])]))
      = trace (run id (Operation \<lparr>projectId = JStr ''p'', region = Undefined\<rparr> (JStr ''op''))
        ([Subscribe ''complete'' 1, Unsubscribe ''complete'' 1, Subscribe ''complete'' 1]
         @ [Unsubscribe ''complete'' 1]))
        @ [SetTimeout 500, SetTimeout 500]
   \<and> inFlight (run id (Operation \<lparr>projectId = JStr ''p'', region = Undefined\<rparr> (JStr ''op''))
        ([Subscribe ''complete'' 1, Unsubscribe ''complete'' 1, Subscribe ''complete'' 1]
         @ [Unsubscribe ''complete'' 1]
         @ [Response Null (JObj [(''done'', JBool False)]),
            Response Null (JObj [(''done'', JBool False)])])) = 2"
  by code_simp

text \<open>
  C1 (as amended): no request is issued after a terminal event, whatever is subscribed or
  unsubscribed afterwards, in every execution in which a \<^verbatim>\<open>complete\<close> listener that
  registers while none is active does so before any terminal event and while nothing is in
  flight. This covers every execution in which the listeners are never all removed,
  followed by any actions among which no \<^verbatim>\<open>complete\<close> listener registers. In every
  reachable state without active listeners, also after a terminal event, a \<^verbatim>\<open>complete\<close>
  subscription issues a request: the Operation keeps no record of a terminal event.
\<close>

theorem no_fetch_after_terminal_unless_restarted:
  "(starts_fresh d (Operation par nm) acts \<longrightarrow>
      fetches_after_terminal (run d (Operation par nm) acts) = [])
   \<and> (stays_active d (Operation par nm) xs \<and> \<not> list_ex subscribes_complete ys \<longrightarrow>
      fetches_after_terminal (run d (Operation par nm) (xs @ ys)) = [])
   \<and> (\<not> hasActiveListeners (run d (Operation par nm) zs) \<longrightarrow>
      fetches (step d (run d (Operation par nm) zs) (Subscribe ''complete'' h))
        = fetches (run d (Operation par nm) zs) @ [GetOperation (JObj [(''name'', nm)])])"
proof (intro conjI impI)
  assume "starts_fresh d (Operation par nm) acts"
  from run_calm [OF Operation_fresh(1) this calm_Operation]
  show "fetches_after_terminal (run d (Operation par nm) acts) = []"
    by (simp add: calm_def fetches_after_terminal_marks)
next
  assume h: "stays_active d (Operation par nm) xs \<and> \<not> list_ex subscribes_complete ys"
  then have "starts_fresh d (Operation par nm) xs"
    by (intro stays_active_starts_fresh Operation_fresh settled_Operation) simp
  moreover from h have "starts_fresh d (run d (Operation par nm) xs) ys"
    by (intro starts_fresh_no_subscription) simp
  ultimately have "starts_fresh d (Operation par nm) (xs @ ys)"
    by (simp add: starts_fresh_append)
  from run_calm [OF Operation_fresh(1) this calm_Operation]
  show "fetches_after_terminal (run d (Operation par nm) (xs @ ys)) = []"
    by (simp add: calm_def fetches_after_terminal_marks)
next
  let ?s = "run d (Operation par nm) zs"
  assume idle: "\<not> hasActiveListeners ?s"
  have w: "wellformed ?s" by (simp add: wellformed_run Operation_fresh)
  have n: "name ?s = nm" by (simp add: name_run Operation_fresh)
  from idle show "fetches (step d ?s (Subscribe ''complete'' h))
        = fetches ?s @ [GetOperation (JObj [(''name'', nm)])]"
    by (simp add: step_Subscribe [OF w] fetches_marks n)
qed

theorem no_fetch_after_terminal_unless_restarted_witness:
  "starts_fresh id (Operation \<lparr>projectId = JStr ''p'', region = Undefined\<rparr> (JStr ''op''))
        [Subscribe ''complete'' 1, Response Null (JObj [(''done'', JBool True)]),
         Unsubscribe ''complete'' 1, TimerFires, Subscribe ''error'' 0, Unsubscribe ''error'' 0]
   \<and> emitted ''complete''
        (run id (Operation \<lparr>projectId = JStr ''p'', region = Undefined\<rparr> (JStr ''op''))
          [Subscribe ''complete'' 1, Response Null (JObj [(''done'', JBool True)]),
           Unsubscribe ''complete'' 1, TimerFires, Subscribe ''error'' 0, Unsubscribe ''error'' 0])
      = [[JObj [(''done'', JBool True)]]]
   \<and> fetches_after_terminal
        (run id (Operation \<lparr>projectId = JStr ''p'', region = Undefined\<rparr> (JStr ''op''))
          [Subscribe ''complete'' 1, Response Null (JObj [(''done'', JBool True)]),
           Unsubscribe ''complete'' 1, TimerFires, Subscribe ''error'' 0, Unsubscribe ''error'' 0]) = []
   \<and> stays_active id (Operation \<lparr>projectId = JStr ''p'', region = Undefined\<rparr> (JStr ''op''))
        [Subscribe ''complete'' 1, Subscribe ''complete'' 2,
         Response Null (JObj [(''done'', JBool True)]), Unsubscribe ''complete'' 1]
   \<and> fetches_after_terminal
        (run id (Operation \<lparr>projectId = JStr ''p'', region = Undefined\<rparr> (JStr ''op''))
          ([Subscribe ''complete'' 1, Subscribe ''complete'' 2,
            Response Null (JObj [(''done'', JBool True)]), Unsubscribe ''complete'' 1]
           @ [Unsubscribe ''complete'' 2, TimerFires])) = []
   \<and> \<not> hasActiveListeners
        (run id (Operation \<lparr>projectId = JStr ''p'', region = Undefined\<rparr> (JStr ''op''))
          [Subscribe ''complete'' 1, Response Null (JObj [(''done'', JBool True)]),
           Unsubscribe ''complete'' 1])
   \<and> fetches (step id
        (run id (Operation \<lparr>projectId = JStr ''p'', region = Undefined\<rparr> (JStr ''op''))
          [Subscribe ''complete'' 1, Response Null (JObj [(''done'', JBool True)]),
           Unsubscribe ''complete'' 1]) (Subscribe ''complete'' 2))
      = [GetOperation (JObj [(''name'', JStr ''op'')]), GetOperation (JObj [(''name'', JStr ''op'')])]"
proof -
  let ?o = "Operation \<lparr>projectId = JStr ''p'', region = Undefined\<rparr> (JStr ''op'')"
  let ?a = "[Subscribe ''complete'' 1, Response Null (JObj [(''done'', JBool True)]),
         Unsubscribe ''complete'' 1, TimerFires, Subscribe ''error'' 0, Unsubscribe ''error'' 0]"
  let ?b1 = "[Subscribe ''complete'' 1, Subscribe ''complete'' 2,
         Response Null (JObj [(''done'', JBool True)]), Unsubscribe ''complete'' 1]"
  let ?b2 = "[Unsubscribe ''complete'' 2, TimerFires]"
  let ?c = "[Subscribe ''complete'' 1, Response Null (JObj [(''done'', JBool True)]),
           Unsubscribe ''complete'' 1]"
  have h1: "starts_fresh id ?o ?a" by code_simp
  have e: "emitted ''complete'' (run id ?o ?a) = [[JObj [(''done'', JBool True)]]]" by code_simp
  have h2: "stays_active id ?o ?b1" by code_simp
  have h2': "\<not> list_ex subscribes_complete ?b2" by simp
  have h3: "\<not> hasActiveListeners (run id ?o ?c)" by code_simp
  have f: "fetches (run id ?o ?c) = [GetOperation (JObj [(''name'', JStr ''op'')])]" by code_simp
  note t = no_fetch_after_terminal_unless_restarted [where d = id
      and par = "\<lparr>projectId = JStr ''p'', region = Undefined\<rparr>" and nm = "JStr ''op''"
      and acts = ?a and xs = ?b1 and ys = ?b2 and zs = ?c and h = 2]
  from t h1 have 1: "fetches_after_terminal (run id ?o ?a) = []" by blast
  from t h2 h2' have 2: "fetches_after_terminal (run id ?o (?b1 @ ?b2)) = []" by blast
  from t h3 have "fetches (step id (run id ?o ?c) (Subscribe ''complete'' 2))
      = fetches (run id ?o ?c) @ [GetOperation (JObj [(''name'', JStr ''op'')])]" by blast
  with f have 3: "fetches (step id (run id ?o ?c) (Subscribe ''complete'' 2))
      = [GetOperation (JObj [(''name'', JStr ''op'')]), GetOperation (JObj [(''name'', JStr ''op'')])]"
    by simp
  from h1 e 1 h2 2 h3 3 show ?thesis by blast
qed

text \<open>
  C1 as stated fails: the Operation keeps no record of a terminal event. After
  \<^verbatim>\<open>complete\<close> has been emitted, removing the only \<^verbatim>\<open>complete\<close> listener and
  registering one again issues a second request.
\<close>

theorem fetch_after_terminal_counterexample:
  "emitted ''complete''
      (run id (Operation \<lparr>projectId = JStr ''p'', region = Undefined\<rparr> (JStr ''op''))
         [Subscribe ''complete'' 1, Response Null (JObj [(''done'', JBool True)])])
     = [[JObj [(''done'', JBool True)]]]
   \<and> fetches
      (run id (Operation \<lparr>projectId = JStr ''p'', region = Undefined\<rparr> (JStr ''op''))
         [Subscribe ''complete'' 1, Response Null (JObj [(''done'', JBool True)])])
     = [GetOperation (JObj [(''name'', JStr ''op'')])]
   \<and> fetches
      (run id (Operation \<lparr>projectId = JStr ''p'', region = Undefined\<rparr> (JStr ''op''))
         ([Subscribe ''complete'' 1, Response Null (JObj [(''done'', JBool True)])]
          @ [Unsubscribe ''complete'' 1, Subscribe ''complete'' 1]))
     = [GetOperation (JObj [(''name'', JStr ''op'')]), GetOperation (JObj [(''name'', JStr ''op'')])]
   \<and> fetches_after_terminal
      (run id (Operation \<lparr>projectId = JStr ''p'', region = Undefined\<rparr> (JStr ''op''))
         ([Subscribe ''complete'' 1, Response Null (JObj [(''done'', JBool True)])]
          @ [Unsubscribe ''complete'' 1, Subscribe ''complete'' 1]))
     = [GetOperation (JObj [(''name'', JStr ''op'')])]"
  by code_simp


section \<open>The promise adapter\<close>




end
